theory Spec2Isabelle
  imports Main "HOL-Library.Word"
begin

unbundle bit_operations_syntax

section \<open>The delay generator (class MersenneTwister)\<close>

text \<open>
  \<open>m_buffer\<close> is the array \<open>unsigned int m_buffer[MT_LEN]\<close>, a list of 32-bit words;
  \<open>m_index\<close> is the \<open>int\<close> field. An access to \<open>m_buffer\<close> outside the array is
  undefined behaviour in the source: \<open>integer\<close> returns \<open>None\<close> there. Every value of
  \<open>m_index\<close> on which the source's \<open>int\<close> additions would overflow is out of the
  array as well, so \<open>m_index\<close> is an unbounded integer.
\<close>

definition MT_IA :: int where
  "MT_IA = 397"

definition MT_LEN :: int where
  "MT_LEN = 624"

record MersenneTwister =
  m_buffer :: "32 word list"
  m_index :: int

definition in_array :: "MersenneTwister \<Rightarrow> int \<Rightarrow> bool" where
  "in_array g k = (0 \<le> k \<and> k < MT_LEN \<and> nat k < length (m_buffer g))"

text \<open>The three indices of \<open>integer\<close>, with the wrap-around as the source writes it.\<close>

definition index_i :: "MersenneTwister \<Rightarrow> int" where
  "index_i g = m_index g"

definition index_i2 :: "MersenneTwister \<Rightarrow> int" where
  "index_i2 g = (if m_index g + 1 \<ge> MT_LEN then 0 else m_index g + 1)"

definition index_j :: "MersenneTwister \<Rightarrow> int" where
  "index_j g =
     (if m_index g + MT_IA \<ge> MT_LEN then m_index g + MT_IA - MT_LEN else m_index g + MT_IA)"

definition twist :: "32 word \<Rightarrow> 32 word \<Rightarrow> 32 word \<Rightarrow> 32 word" where
  "twist bi bi2 bj =
     (let s = (bi AND 0x80000000) OR (bi2 AND 0x7fffffff)
      in bj XOR (drop_bit 1 s) XOR ((s AND 1) * 0x9908B0DF))"

definition swizzle :: "32 word \<Rightarrow> 32 word" where
  "swizzle r0 =
     (let ra = r0 XOR (drop_bit 11 r0);
          rb = ra XOR ((push_bit 7 ra) AND 0x9d2c5680);
          rc = rb XOR ((push_bit 15 rb) AND 0xefc60000)
      in rc XOR (drop_bit 18 rc))"

definition integer :: "MersenneTwister \<Rightarrow> (32 word \<times> MersenneTwister) option" where
  "integer g =
     (let i = index_i g; i2 = index_i2 g; j = index_j g
      in if in_array g i \<and> in_array g i2 \<and> in_array g j
         then
           (let r = twist (m_buffer g ! nat i) (m_buffer g ! nat i2) (m_buffer g ! nat j)
            in Some (swizzle r, \<lparr>m_buffer = (m_buffer g)[nat i := r], m_index = i2\<rparr>))
         else None)"

text \<open>The first loop of the constructor and \<open>m_index = 0\<close>.\<close>

definition fill :: "32 word \<Rightarrow> MersenneTwister" where
  "fill seed = \<lparr>m_buffer = replicate (nat MT_LEN) seed, m_index = 0\<rparr>"

text \<open>\<open>n\<close> calls of \<open>integer\<close> whose results are dropped: the second loop of the constructor.\<close>

fun discard :: "nat \<Rightarrow> MersenneTwister \<Rightarrow> MersenneTwister option" where
  "discard 0 g = Some g"
| "discard (Suc n) g = (case integer g of None \<Rightarrow> None | Some (r, g') \<Rightarrow> discard n g')"

text \<open>The constructor \<open>MersenneTwister::MersenneTwister(seed)\<close>.\<close>

definition construct :: "32 word \<Rightarrow> MersenneTwister option" where
  "construct seed = discard (nat (MT_LEN * 100)) (fill seed)"

text \<open>The results of \<open>n\<close> successive calls of \<open>integer\<close>, and the generator afterwards.\<close>

fun draws :: "nat \<Rightarrow> MersenneTwister \<Rightarrow> (32 word list \<times> MersenneTwister) option" where
  "draws 0 g = Some ([], g)"
| "draws (Suc n) g =
     (case integer g of
        None \<Rightarrow> None
      | Some (r, g') \<Rightarrow>
          (case draws n g' of None \<Rightarrow> None | Some (rs, g'') \<Rightarrow> Some (r # rs, g'')))"

text \<open>
  The states a generator goes through: the filled buffer the constructor starts its
  warm-up calls from, and every state a call of \<open>integer\<close> leaves.
\<close>

inductive reachable :: "MersenneTwister \<Rightarrow> bool" where
  filled: "reachable (fill seed)"
| called: "reachable g \<Longrightarrow> integer g = Some (r, g') \<Longrightarrow> reachable g'"

definition well_formed :: "MersenneTwister \<Rightarrow> bool" where
  "well_formed g = (length (m_buffer g) = 624 \<and> 0 \<le> m_index g \<and> m_index g < 624)"

text \<open>The generator whose buffer is all zero, at index \<open>k\<close>.\<close>

definition zeros :: "int \<Rightarrow> MersenneTwister" where
  "zeros k = \<lparr>m_buffer = replicate 624 0, m_index = k\<rparr>"

subsection \<open>Sequences of outputs\<close>

text \<open>The word a call of \<open>integer\<close> writes into the buffer (\<open>r\<close> before the swizzle).\<close>

definition twisted :: "MersenneTwister \<Rightarrow> 32 word" where
  "twisted g =
     twist (m_buffer g ! nat (index_i g)) (m_buffer g ! nat (index_i2 g))
       (m_buffer g ! nat (index_j g))"

text \<open>
  Two generators are equivalent when they agree on what the next calls read: the index,
  the top bit of the word at the index, and every other word of the buffer.
\<close>

definition equivalent :: "MersenneTwister \<Rightarrow> MersenneTwister \<Rightarrow> bool" where
  "equivalent g h =
     (m_index g = m_index h
      \<and> (m_buffer g ! nat (m_index g)) AND 0x80000000 = (m_buffer h ! nat (m_index h)) AND 0x80000000
      \<and> (\<forall>k<624. k \<noteq> nat (m_index g) \<longrightarrow> m_buffer g ! k = m_buffer h ! k))"

text \<open>The first \<open>n\<close> results of a generator constructed with \<open>seed\<close>.\<close>

definition sequence :: "32 word \<Rightarrow> nat \<Rightarrow> 32 word list option" where
  "sequence seed n =
     (case construct seed of None \<Rightarrow> None | Some g \<Rightarrow> map_option fst (draws n g))"

subsection \<open>The buffer unrolled\<close>

text \<open>
  The words a generator filled with \<open>seed\<close> holds and writes, in the order of the
  calls: the first 624 are the seed, and word \<open>n + 624\<close> is the twist of the words
  \<open>n\<close>, \<open>n + 1\<close> and \<open>n + 397\<close>. \<open>result_at seed n\<close> is the result of call
  \<open>n\<close> (counted from 0, the warm-up calls of the constructor included).
\<close>

function xval :: "32 word \<Rightarrow> nat \<Rightarrow> 32 word" where
  "xval seed n =
     (if n < 624 then seed
      else twist (xval seed (n - 624)) (xval seed (n - 623)) (xval seed (n - 227)))"
  by pat_completeness auto
termination
  by (relation "measure snd") auto

declare xval.simps [simp del]

definition result_at :: "32 word \<Rightarrow> nat \<Rightarrow> 32 word" where
  "result_at seed n = swizzle (xval seed (n + 624))"

text \<open>
  The generator after \<open>624 * q + r\<close> calls: slot \<open>k\<close> of the buffer holds the word
  of round \<open>q + 1\<close> if it has been written in this round, and of round \<open>q\<close> otherwise.
\<close>

definition tracks :: "32 word \<Rightarrow> nat \<Rightarrow> nat \<Rightarrow> MersenneTwister \<Rightarrow> bool" where
  "tracks seed q r g =
     (length (m_buffer g) = 624 \<and> r < 624 \<and> m_index g = int r
      \<and> (\<forall>k<624. m_buffer g ! k = xval seed (624 * q + k + (if k < r then 624 else 0))))"

text \<open>What the next calls read of a generator: equal for equivalent generators.\<close>

definition canon :: "MersenneTwister \<Rightarrow> int \<times> 32 word list" where
  "canon g =
     (m_index g,
      (m_buffer g)[nat (m_index g) := (m_buffer g ! nat (m_index g)) AND 0x80000000])"

section \<open>The counting semaphore\<close>

text \<open>
  A semaphore is a \<open>std::atomic<int>\<close>: a 32-bit word, read as two's complement.
  \<open>fetch_add\<close> on an atomic signed integer wraps around. Each access to the atomic
  is one step and reads the current value; what a thread does between two accesses is
  local.

  \<open>sem_signal\<close> is the \<open>fetch_add(1)\<close>. \<open>sem_wait\<close> is a loop: the place a
  waiting thread is at is \<open>At_load\<close> before \<open>sema.load\<close>, \<open>At_cas oldCount\<close>
  before the test \<open>oldCount > 0\<close> and the \<open>compare_exchange_strong\<close> it guards, and
  \<open>At_yield\<close> before \<open>sched_yield\<close>. \<open>sem_wait_step\<close> takes the value of the
  semaphore and the place, and gives the new value and the next place, or
  \<open>None\<close> when the loop is left and \<open>sem_wait\<close> returns. (A failed
  \<open>compare_exchange_strong\<close> stores the value it saw in \<open>oldCount\<close>; the next
  \<open>load\<close> overwrites it.)
\<close>

definition sem_signal :: "32 word \<Rightarrow> 32 word" where
  "sem_signal sema = sema + 1"

datatype wait_pc = At_load | At_cas "32 word" | At_yield

fun sem_wait_step :: "32 word \<Rightarrow> wait_pc \<Rightarrow> 32 word \<times> wait_pc option" where
  "sem_wait_step sema At_load = (sema, Some (At_cas sema))"
| "sem_wait_step sema (At_cas oldCount) =
     (if 0 <s oldCount \<and> sema = oldCount then (oldCount - 1, None) else (sema, Some At_yield))"
| "sem_wait_step sema At_yield = (sema, Some At_load)"

subsection \<open>Threads that call the semaphore\<close>

text \<open>
  Any number of threads, each with a list of calls still to make, share one semaphore.
  A schedule is the list of the threads that take the next step, one atomic access
  each. A call of \<open>sem_signal\<close> is completed by its \<open>fetch_add\<close>, a call of
  \<open>sem_wait\<close> returns with its successful \<open>compare_exchange_strong\<close>; the two
  counters count them.
\<close>

datatype call = Signal | Wait

record client =
  pending :: "call list"
  at :: wait_pc

record sem_state =
  sem_count :: "32 word"
  clients :: "client list"
  signals_completed :: nat
  waits_returned :: nat

definition client_step :: "nat \<Rightarrow> sem_state \<Rightarrow> sem_state" where
  "client_step t s =
     (if t < length (clients s) then
        (let c = clients s ! t in
         case pending c of
           [] \<Rightarrow> s
         | Signal # rest \<Rightarrow>
             s\<lparr>sem_count := sem_signal (sem_count s),
               clients := (clients s)[t := c\<lparr>pending := rest\<rparr>],
               signals_completed := Suc (signals_completed s)\<rparr>
         | Wait # rest \<Rightarrow>
             (case sem_wait_step (sem_count s) (at c) of
                (v, None) \<Rightarrow>
                  s\<lparr>sem_count := v,
                    clients := (clients s)[t := \<lparr>pending = rest, at = At_load\<rparr>],
                    waits_returned := Suc (waits_returned s)\<rparr>
              | (v, Some p) \<Rightarrow>
                  s\<lparr>sem_count := v, clients := (clients s)[t := c\<lparr>at := p\<rparr>]\<rparr>))
      else s)"

fun run :: "nat list \<Rightarrow> sem_state \<Rightarrow> sem_state" where
  "run [] s = s"
| "run (t # ts) s = run ts (client_step t s)"

definition start :: "call list list \<Rightarrow> sem_state" where
  "start progs =
     \<lparr>sem_count = 0, clients = map (\<lambda>p. \<lparr>pending = p, at = At_load\<rparr>) progs,
      signals_completed = 0, waits_returned = 0\<rparr>"


section \<open>The main program\<close>

text \<open>
  The two build-time options, \<open>USE_CPU_FENCE\<close> and \<open>USE_SINGLE_HW_THREAD\<close>, are
  parameters of the model; the source sets both to 0.
\<close>

record config =
  use_cpu_fence :: bool
  use_single_hw_thread :: bool

definition source_config :: config where
  "source_config = \<lparr>use_cpu_fence = False, use_single_hw_thread = False\<rparr>"

text \<open>
  The global variables: three semaphores and four \<open>int\<close> variables. An \<open>int\<close> of
  the program (these four, \<open>detected\<close> and \<open>iterations\<close>) is a 32-bit word read as
  two's complement, the value printed being \<open>sint\<close> of it. \<open>detected++\<close> and
  \<open>iterations++\<close> wrap around, as they do on the two's-complement machines the program
  is written for; in the source language that overflow is undefined, and the first one
  is \<open>iterations++\<close> at the end of pass \<open>2 ^ 31 - 1\<close>.
\<close>

datatype semaphore = beginSema1 | beginSema2 | endSema

datatype variable = X | Y | r1 | r2

record memory =
  sema :: "semaphore \<Rightarrow> 32 word"
  var :: "variable \<Rightarrow> 32 word"

text \<open>
  Each thread records what it has done, in order: a \<open>sem_wait\<close> that returned, a
  \<open>sem_signal\<close>, a result of \<open>random.integer()\<close>, a store of a value into a
  variable, the barrier between the store and the load of a transaction, a copy
  (\<open>Copy r1 Y\<close> is \<open>r1 = Y\<close>), the evaluation of \<open>r1 == 0 && r2 == 0\<close> on the values
  read.
\<close>

datatype barrier = Compiler_barrier | Mfence

datatype event =
    Sem_wait semaphore
  | Sem_signal semaphore
  | Random "32 word"
  | Store variable "32 word"
  | Barrier barrier
  | Copy variable variable
  | Inspect "32 word" "32 word"

subsection \<open>The workers: thread1Func and thread2Func\<close>

text \<open>
  The two functions differ in the seed, the semaphore waited on and the variables only.
  The threads run interleaved, one step at a time, and a step takes effect on the
  memory at once (a sequentially consistent memory: the reordering of a worker's store
  and load that the program looks for does not happen in this model).
\<close>

datatype worker_id = Thread1 | Thread2

fun seed_of :: "worker_id \<Rightarrow> 32 word" where
  "seed_of Thread1 = 1"
| "seed_of Thread2 = 2"

fun begin_sema :: "worker_id \<Rightarrow> semaphore" where
  "begin_sema Thread1 = beginSema1"
| "begin_sema Thread2 = beginSema2"

fun own_flag :: "worker_id \<Rightarrow> variable" where
  "own_flag Thread1 = X"
| "own_flag Thread2 = Y"

fun other_flag :: "worker_id \<Rightarrow> variable" where
  "other_flag Thread1 = Y"
| "other_flag Thread2 = X"

fun result_slot :: "worker_id \<Rightarrow> variable" where
  "result_slot Thread1 = r1"
| "result_slot Thread2 = r2"

datatype worker_pc =
    W_construct
  | W_begin_wait wait_pc
  | W_delay
  | W_store
  | W_barrier
  | W_load
  | W_signal

record worker_state =
  w_pc :: worker_pc
  random :: MersenneTwister
  w_events :: "event list"

definition threadFunc_step ::
  "config \<Rightarrow> worker_id \<Rightarrow> memory \<Rightarrow> worker_state \<Rightarrow> (memory \<times> worker_state) option" where
  "threadFunc_step cfg w m s =
     (case w_pc s of
        W_construct \<Rightarrow>
          (case construct (seed_of w) of
             None \<Rightarrow> None
           | Some g \<Rightarrow> Some (m, s\<lparr>w_pc := W_begin_wait At_load, random := g\<rparr>))
      | W_begin_wait p \<Rightarrow>
          (case sem_wait_step (sema m (begin_sema w)) p of
             (v, None) \<Rightarrow>
               Some (m\<lparr>sema := (sema m)(begin_sema w := v)\<rparr>,
                     s\<lparr>w_pc := W_delay, w_events := w_events s @ [Sem_wait (begin_sema w)]\<rparr>)
           | (v, Some p') \<Rightarrow>
               Some (m\<lparr>sema := (sema m)(begin_sema w := v)\<rparr>, s\<lparr>w_pc := W_begin_wait p'\<rparr>))
      | W_delay \<Rightarrow>
          (case integer (random s) of
             None \<Rightarrow> None
           | Some (r, g) \<Rightarrow>
               Some (m, s\<lparr>w_pc := (if r mod 8 \<noteq> 0 then W_delay else W_store),
                           random := g, w_events := w_events s @ [Random r]\<rparr>))
      | W_store \<Rightarrow>
          Some (m\<lparr>var := (var m)(own_flag w := 1)\<rparr>,
                s\<lparr>w_pc := W_barrier, w_events := w_events s @ [Store (own_flag w) 1]\<rparr>)
      | W_barrier \<Rightarrow>
          Some (m, s\<lparr>w_pc := W_load,
                      w_events := w_events s
                        @ [Barrier (if use_cpu_fence cfg then Mfence else Compiler_barrier)]\<rparr>)
      | W_load \<Rightarrow>
          Some (m\<lparr>var := (var m)(result_slot w := var m (other_flag w))\<rparr>,
                s\<lparr>w_pc := W_signal,
                  w_events := w_events s @ [Copy (result_slot w) (other_flag w)]\<rparr>)
      | W_signal \<Rightarrow>
          Some (m\<lparr>sema := (sema m)(endSema := sem_signal (sema m endSema))\<rparr>,
                s\<lparr>w_pc := W_begin_wait At_load,
                  w_events := w_events s @ [Sem_signal endSema]\<rparr>))"

definition thread1Func_step ::
  "config \<Rightarrow> memory \<Rightarrow> worker_state \<Rightarrow> (memory \<times> worker_state) option" where
  "thread1Func_step cfg = threadFunc_step cfg Thread1"

definition thread2Func_step ::
  "config \<Rightarrow> memory \<Rightarrow> worker_state \<Rightarrow> (memory \<times> worker_state) option" where
  "thread2Func_step cfg = threadFunc_step cfg Thread2"

subsection \<open>The controller: the loop of main\<close>

text \<open>What \<open>operator<<\<close> prints for an \<open>int\<close>: its decimal digits, after a minus sign if negative.\<close>

definition digit :: "nat \<Rightarrow> char" where
  "digit n = ''0123456789'' ! n"

fun show_nat :: "nat \<Rightarrow> string" where
  "show_nat n = (if n < 10 then [digit n] else show_nat (n div 10) @ [digit (n mod 10)])"

declare show_nat.simps [simp del]

definition show_int :: "int \<Rightarrow> string" where
  "show_int k = (if k < 0 then CHR ''-'' # show_nat (nat (- k)) else show_nat (nat k))"

definition newline :: char where
  "newline = CHR 0x0A"

datatype main_pc =
    M_reset_X
  | M_reset_Y
  | M_signal1
  | M_signal2
  | M_wait1 wait_pc
  | M_wait2 wait_pc
  | M_check

record main_state =
  m_pc :: main_pc
  detected :: "32 word"
  iterations :: "32 word"
  cout :: string
  m_events :: "event list"

text \<open>The line printed on a detection, and the \<open>std::endl\<close> after it.\<close>

definition report :: "32 word \<Rightarrow> 32 word \<Rightarrow> string" where
  "report d i =
     show_int (sint d) @ '' reorders detected after '' @ show_int (sint i) @ '' iterations''
       @ [newline] @ [newline]"

text \<open>The \<open>if\<close> statement at the end of the loop body, on the values read from \<open>r1\<close> and \<open>r2\<close>.\<close>

definition check :: "32 word \<Rightarrow> 32 word \<Rightarrow> main_state \<Rightarrow> main_state" where
  "check v1 v2 s =
     (if v1 = 0 \<and> v2 = 0
      then s\<lparr>detected := detected s + 1,
             cout := cout s @ report (detected s + 1) (iterations s)\<rparr>
      else s)"

definition main_step :: "memory \<Rightarrow> main_state \<Rightarrow> memory \<times> main_state" where
  "main_step m s =
     (case m_pc s of
        M_reset_X \<Rightarrow>
          (m\<lparr>var := (var m)(X := 0)\<rparr>,
           s\<lparr>m_pc := M_reset_Y, m_events := m_events s @ [Store X 0]\<rparr>)
      | M_reset_Y \<Rightarrow>
          (m\<lparr>var := (var m)(Y := 0)\<rparr>,
           s\<lparr>m_pc := M_signal1, m_events := m_events s @ [Store Y 0]\<rparr>)
      | M_signal1 \<Rightarrow>
          (m\<lparr>sema := (sema m)(beginSema1 := sem_signal (sema m beginSema1))\<rparr>,
           s\<lparr>m_pc := M_signal2, m_events := m_events s @ [Sem_signal beginSema1]\<rparr>)
      | M_signal2 \<Rightarrow>
          (m\<lparr>sema := (sema m)(beginSema2 := sem_signal (sema m beginSema2))\<rparr>,
           s\<lparr>m_pc := M_wait1 At_load, m_events := m_events s @ [Sem_signal beginSema2]\<rparr>)
      | M_wait1 p \<Rightarrow>
          (case sem_wait_step (sema m endSema) p of
             (v, None) \<Rightarrow>
               (m\<lparr>sema := (sema m)(endSema := v)\<rparr>,
                s\<lparr>m_pc := M_wait2 At_load, m_events := m_events s @ [Sem_wait endSema]\<rparr>)
           | (v, Some p') \<Rightarrow> (m\<lparr>sema := (sema m)(endSema := v)\<rparr>, s\<lparr>m_pc := M_wait1 p'\<rparr>))
      | M_wait2 p \<Rightarrow>
          (case sem_wait_step (sema m endSema) p of
             (v, None) \<Rightarrow>
               (m\<lparr>sema := (sema m)(endSema := v)\<rparr>,
                s\<lparr>m_pc := M_check, m_events := m_events s @ [Sem_wait endSema]\<rparr>)
           | (v, Some p') \<Rightarrow> (m\<lparr>sema := (sema m)(endSema := v)\<rparr>, s\<lparr>m_pc := M_wait2 p'\<rparr>))
      | M_check \<Rightarrow>
          (m, (check (var m r1) (var m r2) s)
                \<lparr>m_pc := M_reset_X, iterations := iterations s + 1,
                 m_events := m_events s @ [Inspect (var m r1) (var m r2)]\<rparr>))"

subsection \<open>The whole program\<close>

text \<open>
  \<open>startup\<close> is \<open>main\<close> up to its loop: the semaphores are set to 0, the two threads
  are spawned, and under \<open>USE_SINGLE_HW_THREAD\<close> \<open>pthread_setaffinity_np\<close> is called
  for each; \<open>affinity_results\<close> is what the two calls return, for \<open>thread1\<close> and
  for \<open>thread2\<close> (0 on success, an error number otherwise). The source drops the
  returned values. \<open>pinned\<close> tells
  which threads are bound to core 0 after startup. The globals start at 0; a worker's
  generator is constructed by the worker's first step.
\<close>

record system =
  mem :: memory
  main_thread :: main_state
  thread1 :: worker_state
  thread2 :: worker_state
  pinned :: "worker_id \<Rightarrow> bool"

definition spawned :: worker_state where
  "spawned = \<lparr>w_pc = W_construct, random = \<lparr>m_buffer = [], m_index = 0\<rparr>, w_events = []\<rparr>"

fun result_for :: "int \<times> int \<Rightarrow> worker_id \<Rightarrow> int" where
  "result_for (a, b) Thread1 = a"
| "result_for (a, b) Thread2 = b"

definition startup :: "config \<Rightarrow> int \<times> int \<Rightarrow> system" where
  "startup cfg affinity_results =
     \<lparr>mem = \<lparr>sema = (\<lambda>_. 0), var = (\<lambda>_. 0)\<rparr>,
      main_thread = \<lparr>m_pc = M_reset_X, detected = 0, iterations = 1, cout = [], m_events = []\<rparr>,
      thread1 = spawned,
      thread2 = spawned,
      pinned = (\<lambda>w. use_single_hw_thread cfg \<and> result_for affinity_results w = 0)\<rparr>"

datatype thread_id = Main_thread | Worker worker_id

fun system_step :: "config \<Rightarrow> thread_id \<Rightarrow> system \<Rightarrow> system option" where
  "system_step cfg Main_thread s =
     (case main_step (mem s) (main_thread s) of
        (m, c) \<Rightarrow> Some (s\<lparr>mem := m, main_thread := c\<rparr>))"
| "system_step cfg (Worker Thread1) s =
     (case thread1Func_step cfg (mem s) (thread1 s) of
        None \<Rightarrow> None
      | Some (m, w) \<Rightarrow> Some (s\<lparr>mem := m, thread1 := w\<rparr>))"
| "system_step cfg (Worker Thread2) s =
     (case thread2Func_step cfg (mem s) (thread2 s) of
        None \<Rightarrow> None
      | Some (m, w) \<Rightarrow> Some (s\<lparr>mem := m, thread2 := w\<rparr>))"

fun execute :: "config \<Rightarrow> thread_id list \<Rightarrow> system \<Rightarrow> system option" where
  "execute cfg [] s = Some s"
| "execute cfg (t # ts) s =
     (case system_step cfg t s of None \<Rightarrow> None | Some s' \<Rightarrow> execute cfg ts s')"

subsection \<open>The orders the threads are to keep\<close>

text \<open>
  \<open>follows\<close> runs a monitor over a list of events: a monitor takes its state and an
  event to its next state, or to \<open>None\<close> when the event is out of order.
\<close>

fun follows :: "('q \<Rightarrow> event \<Rightarrow> 'q option) \<Rightarrow> 'q \<Rightarrow> event list \<Rightarrow> 'q option" where
  "follows step q [] = Some q"
| "follows step q (e # es) = (case step q e of None \<Rightarrow> None | Some q' \<Rightarrow> follows step q' es)"

text \<open>
  The order of a worker's pass, written after the description of the pass: a wait on
  its own begin-semaphore; results of the generator, of which each one that is not a
  multiple of 8 is followed by another and the first multiple of 8 ends the delay; the
  store of 1 into its own flag (\<open>X\<close> for worker 1, \<open>Y\<close> for worker 2); a barrier; the
  copy of the other worker's flag into its own result (\<open>r1\<close> for worker 1, \<open>r2\<close> for
  worker 2); one signal of the completion semaphore. The state of the monitor is what
  the worker is to do next.
\<close>

datatype worker_phase =
    To_wait
  | To_draw
  | To_store
  | To_fence
  | To_load
  | To_signal

definition worker_order :: "worker_id \<Rightarrow> worker_phase \<Rightarrow> event \<Rightarrow> worker_phase option" where
  "worker_order w q e =
     (case q of
        To_wait \<Rightarrow>
          (case e of
             Sem_wait s \<Rightarrow>
               if (w = Thread1 \<and> s = beginSema1) \<or> (w = Thread2 \<and> s = beginSema2)
               then Some To_draw else None
           | _ \<Rightarrow> None)
      | To_draw \<Rightarrow>
          (case e of
             Random v \<Rightarrow> Some (if v mod 8 \<noteq> 0 then To_draw else To_store)
           | _ \<Rightarrow> None)
      | To_store \<Rightarrow>
          (case e of
             Store x v \<Rightarrow>
               if ((w = Thread1 \<and> x = X) \<or> (w = Thread2 \<and> x = Y)) \<and> v = 1
               then Some To_fence else None
           | _ \<Rightarrow> None)
      | To_fence \<Rightarrow> (case e of Barrier b \<Rightarrow> Some To_load | _ \<Rightarrow> None)
      | To_load \<Rightarrow>
          (case e of
             Copy dst src \<Rightarrow>
               if (w = Thread1 \<and> dst = r1 \<and> src = Y) \<or> (w = Thread2 \<and> dst = r2 \<and> src = X)
               then Some To_signal else None
           | _ \<Rightarrow> None)
      | To_signal \<Rightarrow>
          (case e of
             Sem_signal s \<Rightarrow> if s = endSema then Some To_wait else None
           | _ \<Rightarrow> None))"

text \<open>
  The order of the controller's pass: the monitor keeps whether \<open>X\<close> and \<open>Y\<close> have
  been reset and how many waits on the completion semaphore have returned in this pass.
  A begin-semaphore may be signalled only when both flags have been reset, and the
  results may be inspected only when two waits have returned; the inspection ends the
  pass.
\<close>

definition controller_order ::
  "bool \<times> bool \<times> nat \<Rightarrow> event \<Rightarrow> (bool \<times> bool \<times> nat) option" where
  "controller_order p e =
     (case p of
        (x_reset, y_reset, waits) \<Rightarrow>
          (case e of
             Store x v \<Rightarrow>
               if x = X \<and> v = 0 then Some (True, y_reset, waits)
               else if x = Y \<and> v = 0 then Some (x_reset, True, waits)
               else None
           | Sem_signal s \<Rightarrow>
               if (s = beginSema1 \<or> s = beginSema2) \<and> x_reset \<and> y_reset
               then Some (x_reset, y_reset, waits) else None
           | Sem_wait s \<Rightarrow> if s = endSema then Some (x_reset, y_reset, Suc waits) else None
           | Inspect a b \<Rightarrow> if waits = 2 then Some (False, False, 0) else None
           | _ \<Rightarrow> None))"

subsection \<open>Where a thread is in its order\<close>

text \<open>The state of the worker's monitor at each place of the worker's loop.\<close>

fun phase_of :: "worker_pc \<Rightarrow> worker_phase" where
  "phase_of W_construct = To_wait"
| "phase_of (W_begin_wait p) = To_wait"
| "phase_of W_delay = To_draw"
| "phase_of W_store = To_store"
| "phase_of W_barrier = To_fence"
| "phase_of W_load = To_load"
| "phase_of W_signal = To_signal"

text \<open>The state of the controller's monitor at each place of the controller's loop.\<close>

fun progress_of :: "main_pc \<Rightarrow> bool \<times> bool \<times> nat" where
  "progress_of M_reset_X = (False, False, 0)"
| "progress_of M_reset_Y = (True, False, 0)"
| "progress_of M_signal1 = (True, True, 0)"
| "progress_of M_signal2 = (True, True, 0)"
| "progress_of (M_wait1 p) = (True, True, 0)"
| "progress_of (M_wait2 p) = (True, True, 1)"
| "progress_of M_check = (True, True, 2)"

text \<open>The results of the generator among the events of a worker, in order.\<close>

definition randoms :: "event list \<Rightarrow> 32 word list" where
  "randoms es = concat (map (\<lambda>e. case e of Random v \<Rightarrow> [v] | _ \<Rightarrow> []) es)"

definition worker_ok :: "worker_id \<Rightarrow> worker_state \<Rightarrow> bool" where
  "worker_ok w s =
     (follows (worker_order w) To_wait (w_events s) = Some (phase_of (w_pc s))
      \<and> (if w_pc s = W_construct then w_events s = []
         else well_formed (random s)
           \<and> (\<exists>g. construct (seed_of w) = Some g
                 \<and> draws (length (randoms (w_events s))) g
                     = Some (randoms (w_events s), random s))))"

text \<open>
  The number of inspections among the events of the controller, and the number of those
  that found \<open>r1 = 0\<close> and \<open>r2 = 0\<close>.
\<close>

definition inspections :: "event list \<Rightarrow> nat" where
  "inspections es = length (filter (\<lambda>e. case e of Inspect a b \<Rightarrow> True | _ \<Rightarrow> False) es)"

definition detections :: "event list \<Rightarrow> nat" where
  "detections es = length (filter (\<lambda>e. e = Inspect 0 0) es)"

definition main_ok :: "main_state \<Rightarrow> bool" where
  "main_ok c =
     (follows controller_order (False, False, 0) (m_events c) = Some (progress_of (m_pc c))
      \<and> detected c = of_nat (detections (m_events c))
      \<and> iterations c = 1 + of_nat (inspections (m_events c)))"

definition system_ok :: "system \<Rightarrow> bool" where
  "system_ok s =
     (main_ok (main_thread s) \<and> worker_ok Thread1 (thread1 s) \<and> worker_ok Thread2 (thread2 s))"

subsection \<open>The handshake between the controller and the workers\<close>

text \<open>
  A worker is busy from the return of its wait on the begin-semaphore to its signal of
  the completion semaphore. A worker holds a token when its begin-semaphore is not 0 or
  it is busy. The handshake: the begin-semaphores are 0 or 1, a worker holds at most one
  token, and the tokens and the completion semaphore fit the place the controller is at.
\<close>

fun busy :: "worker_pc \<Rightarrow> bool" where
  "busy W_construct = False"
| "busy (W_begin_wait p) = False"
| "busy W_delay = True"
| "busy W_store = True"
| "busy W_barrier = True"
| "busy W_load = True"
| "busy W_signal = True"

definition tokens :: "memory \<Rightarrow> worker_id \<Rightarrow> worker_state \<Rightarrow> nat" where
  "tokens m w s =
     (if sema m (begin_sema w) = 0 then 0 else 1) + (if busy (w_pc s) then 1 else 0)"

fun settled :: "main_pc \<Rightarrow> nat \<Rightarrow> nat \<Rightarrow> 32 word \<Rightarrow> bool" where
  "settled M_reset_X t1 t2 e = (t1 = 0 \<and> t2 = 0 \<and> e = 0)"
| "settled M_reset_Y t1 t2 e = (t1 = 0 \<and> t2 = 0 \<and> e = 0)"
| "settled M_signal1 t1 t2 e = (t1 = 0 \<and> t2 = 0 \<and> e = 0)"
| "settled M_signal2 t1 t2 e = (t2 = 0 \<and> e = of_nat (1 - t1))"
| "settled (M_wait1 p) t1 t2 e = (e = of_nat (2 - t1 - t2))"
| "settled (M_wait2 p) t1 t2 e = (t1 + t2 \<le> 1 \<and> e = of_nat (1 - t1 - t2))"
| "settled M_check t1 t2 e = (t1 = 0 \<and> t2 = 0 \<and> e = 0)"

definition handshake :: "memory \<Rightarrow> main_pc \<Rightarrow> worker_state \<Rightarrow> worker_state \<Rightarrow> bool" where
  "handshake m pc w1 w2 =
     ((sema m beginSema1 = 0 \<or> sema m beginSema1 = 1)
      \<and> (sema m beginSema2 = 0 \<or> sema m beginSema2 = 1)
      \<and> tokens m Thread1 w1 \<le> 1 \<and> tokens m Thread2 w2 \<le> 1
      \<and> settled pc (tokens m Thread1 w1) (tokens m Thread2 w2) (sema m endSema))"

definition handshake_ok :: "system \<Rightarrow> bool" where
  "handshake_ok s = handshake (mem s) (m_pc (main_thread s)) (thread1 s) (thread2 s)"

text \<open>
  The flags. A worker is started in a pass once the controller has signalled its
  begin-semaphore; it has stored once it is past its store. From then to the end of the
  pass its flag is 1, and from the controller's reset to the worker's store it is 0.
\<close>

fun started :: "main_pc \<Rightarrow> worker_id \<Rightarrow> bool" where
  "started M_reset_X w = False"
| "started M_reset_Y w = False"
| "started M_signal1 w = False"
| "started M_signal2 w = (w = Thread1)"
| "started (M_wait1 p) w = True"
| "started (M_wait2 p) w = True"
| "started M_check w = True"

fun reset_done :: "main_pc \<Rightarrow> worker_id \<Rightarrow> bool" where
  "reset_done M_reset_X w = False"
| "reset_done M_reset_Y w = (w = Thread1)"
| "reset_done M_signal1 w = True"
| "reset_done M_signal2 w = True"
| "reset_done (M_wait1 p) w = True"
| "reset_done (M_wait2 p) w = True"
| "reset_done M_check w = True"

fun stored :: "worker_pc \<Rightarrow> bool" where
  "stored W_construct = False"
| "stored (W_begin_wait p) = False"
| "stored W_delay = False"
| "stored W_store = False"
| "stored W_barrier = True"
| "stored W_load = True"
| "stored W_signal = True"

definition flag_ok :: "memory \<Rightarrow> main_pc \<Rightarrow> worker_id \<Rightarrow> worker_state \<Rightarrow> bool" where
  "flag_ok m pc w s =
     (if started pc w
      then var m (own_flag w) = (if stored (w_pc s) \<or> tokens m w s = 0 then 1 else 0)
      else reset_done pc w \<longrightarrow> var m (own_flag w) = 0)"

definition flags_ok :: "system \<Rightarrow> bool" where
  "flags_ok s =
     (handshake_ok s
      \<and> flag_ok (mem s) (m_pc (main_thread s)) Thread1 (thread1 s)
      \<and> flag_ok (mem s) (m_pc (main_thread s)) Thread2 (thread2 s))"

subsection \<open>A worker running alone\<close>

text \<open>\<open>n\<close> steps of a worker with no step of another thread in between.\<close>

fun worker_run ::
  "config \<Rightarrow> worker_id \<Rightarrow> nat \<Rightarrow> memory \<Rightarrow> worker_state \<Rightarrow> (memory \<times> worker_state) option"
  where
  "worker_run cfg w 0 m s = Some (m, s)"
| "worker_run cfg w (Suc n) m s =
     (case threadFunc_step cfg w m s of
        None \<Rightarrow> None
      | Some (m', s') \<Rightarrow> worker_run cfg w n m' s')"

text \<open>The state of a worker in the state of the program, and the other worker.\<close>

fun worker_of :: "worker_id \<Rightarrow> system \<Rightarrow> worker_state" where
  "worker_of Thread1 s = thread1 s"
| "worker_of Thread2 s = thread2 s"

fun other_worker :: "worker_id \<Rightarrow> worker_id" where
  "other_worker Thread1 = Thread2"
| "other_worker Thread2 = Thread1"

subsection \<open>What a recorded event does to the memory\<close>

text \<open>
  The change of the shared memory that an event stands for: a wait that returns takes
  one from a semaphore whose count is positive, a signal adds one, a store and a copy
  write one variable, a barrier and a result of the generator leave the memory alone,
  and an inspection reads \<open>r1\<close> and \<open>r2\<close>. \<open>None\<close> when the event cannot happen on that
  memory.
\<close>

fun effect :: "event \<Rightarrow> memory \<Rightarrow> memory option" where
  "effect (Sem_wait b) m =
     (if 0 <s sema m b then Some (m\<lparr>sema := (sema m)(b := sema m b - 1)\<rparr>) else None)"
| "effect (Sem_signal b) m = Some (m\<lparr>sema := (sema m)(b := sema m b + 1)\<rparr>)"
| "effect (Random v) m = Some m"
| "effect (Store x v) m = Some (m\<lparr>var := (var m)(x := v)\<rparr>)"
| "effect (Barrier b) m = Some m"
| "effect (Copy dst src) m = Some (m\<lparr>var := (var m)(dst := var m src)\<rparr>)"
| "effect (Inspect a b) m = (if var m r1 = a \<and> var m r2 = b then Some m else None)"
section \<open>Proofs: index safety of the generator\<close>

lemma well_formed_fill: "well_formed (fill seed)"
  by (simp add: well_formed_def fill_def MT_LEN_def)

lemma well_formed_indices:
  assumes "well_formed g"
  shows "in_array g (index_i g)" and "in_array g (index_i2 g)" and "in_array g (index_j g)"
  using assms
  by (auto simp: well_formed_def in_array_def index_i_def index_i2_def index_j_def
      MT_LEN_def MT_IA_def)

lemma integer_well_formed:
  assumes "well_formed g"
  shows "\<exists>r g'. integer g = Some (r, g') \<and> well_formed g'
           \<and> m_index g' = (m_index g + 1) mod 624
           \<and> length (m_buffer g') = length (m_buffer g)"
proof -
  have "well_formed
          \<lparr>m_buffer = (m_buffer g)[nat (index_i g) :=
              twist (m_buffer g ! nat (index_i g)) (m_buffer g ! nat (index_i2 g))
                (m_buffer g ! nat (index_j g))],
           m_index = index_i2 g\<rparr>"
    using assms by (auto simp: well_formed_def index_i2_def MT_LEN_def)
  moreover have "index_i2 g = (m_index g + 1) mod 624"
  proof (cases "m_index g = 623")
    case True
    then show ?thesis by (simp add: index_i2_def MT_LEN_def)
  next
    case False
    with assms have "m_index g + 1 < 624" "0 \<le> m_index g + 1"
      by (auto simp: well_formed_def)
    then show ?thesis by (simp add: index_i2_def MT_LEN_def)
  qed
  ultimately show ?thesis
    using well_formed_indices [OF assms] by (simp add: integer_def Let_def)
qed

lemma integer_preserves_well_formed:
  "well_formed g \<Longrightarrow> integer g = Some (r, g') \<Longrightarrow> well_formed g'"
  using integer_well_formed [of g] by auto

lemma reachable_well_formed: "reachable g \<Longrightarrow> well_formed g"
  by (induction rule: reachable.induct)
    (auto intro: well_formed_fill integer_preserves_well_formed)

lemma discard_well_formed:
  "well_formed g \<Longrightarrow>
     \<exists>g'. discard n g = Some g' \<and> well_formed g' \<and> m_index g' = (m_index g + int n) mod 624"
proof (induction n arbitrary: g)
  case 0
  then show ?case by (simp add: well_formed_def)
next
  case (Suc n)
  from integer_well_formed [OF Suc.prems] obtain r g1 where
    g1: "integer g = Some (r, g1)" "well_formed g1" "m_index g1 = (m_index g + 1) mod 624"
    by blast
  from Suc.IH [OF g1(2)] obtain g' where
    g': "discard n g1 = Some g'" "well_formed g'" "m_index g' = (m_index g1 + int n) mod 624"
    by blast
  have "(m_index g1 + int n) mod 624 = (m_index g + int (Suc n)) mod 624"
    unfolding g1(3) by (simp add: mod_simps algebra_simps)
  with g1 g' show ?case by simp
qed

lemma discard_reachable: "reachable g \<Longrightarrow> discard n g = Some g' \<Longrightarrow> reachable g'"
proof (induction n arbitrary: g)
  case 0
  then show ?case by simp
next
  case (Suc n)
  then show ?case
    by (auto split: option.splits intro: reachable.called)
qed

text \<open>
  Claim C9. In every state a generator goes through, \<open>m_index\<close> lies in
  \<open>[0, 624)\<close>; the three indices \<open>i\<close>, \<open>i2\<close> and \<open>j\<close> at which \<open>integer\<close>
  accesses \<open>m_buffer\<close> lie in \<open>[0, 624)\<close> and inside the array, so the call returns
  normally, and it leaves \<open>m_index\<close> advanced by one modulo 624. The constructor
  returns, after its 624 * 100 warm-up calls, a generator with \<open>m_index = 0\<close>.
\<close>

theorem generator_index_safe:
  "(reachable g \<longrightarrow>
      0 \<le> m_index g \<and> m_index g < 624
      \<and> 0 \<le> index_i g \<and> index_i g < 624
      \<and> 0 \<le> index_i2 g \<and> index_i2 g < 624
      \<and> 0 \<le> index_j g \<and> index_j g < 624
      \<and> in_array g (index_i g) \<and> in_array g (index_i2 g) \<and> in_array g (index_j g)
      \<and> (\<exists>r g'. integer g = Some (r, g') \<and> m_index g' = (m_index g + 1) mod 624))
   \<and> (\<exists>g0. construct seed = Some g0 \<and> m_index g0 = 0 \<and> reachable g0)"
proof
  show "reachable g \<longrightarrow>
      0 \<le> m_index g \<and> m_index g < 624
      \<and> 0 \<le> index_i g \<and> index_i g < 624
      \<and> 0 \<le> index_i2 g \<and> index_i2 g < 624
      \<and> 0 \<le> index_j g \<and> index_j g < 624
      \<and> in_array g (index_i g) \<and> in_array g (index_i2 g) \<and> in_array g (index_j g)
      \<and> (\<exists>r g'. integer g = Some (r, g') \<and> m_index g' = (m_index g + 1) mod 624)"
  proof
    assume "reachable g"
    then have wf: "well_formed g" by (rule reachable_well_formed)
    from integer_well_formed [OF wf] have
      "\<exists>r g'. integer g = Some (r, g') \<and> m_index g' = (m_index g + 1) mod 624" by blast
    then show "0 \<le> m_index g \<and> m_index g < 624
      \<and> 0 \<le> index_i g \<and> index_i g < 624
      \<and> 0 \<le> index_i2 g \<and> index_i2 g < 624
      \<and> 0 \<le> index_j g \<and> index_j g < 624
      \<and> in_array g (index_i g) \<and> in_array g (index_i2 g) \<and> in_array g (index_j g)
      \<and> (\<exists>r g'. integer g = Some (r, g') \<and> m_index g' = (m_index g + 1) mod 624)"
      using wf well_formed_indices [OF wf]
      by (simp add: in_array_def MT_LEN_def well_formed_def)
  qed
next
  from discard_well_formed [OF well_formed_fill, of 62400 seed] obtain g0 where
    g0: "discard 62400 (fill seed) = Some g0" "m_index g0 = (m_index (fill seed) + 62400) mod 624"
    by auto
  have "reachable g0" using discard_reachable [OF reachable.filled g0(1)] .
  moreover have "m_index g0 = 0" using g0(2) by (simp add: fill_def)
  ultimately show "\<exists>g0. construct seed = Some g0 \<and> m_index g0 = 0 \<and> reachable g0"
    using g0(1) by (simp add: construct_def MT_LEN_def)
qed

theorem generator_index_safe_witness:
  "reachable (fill 7) \<and> m_index (fill 7) = 0 \<and> index_i (fill 7) = 0 \<and> index_i2 (fill 7) = 1
     \<and> index_j (fill 7) = 397
     \<and> (\<exists>r g'. integer (fill 7) = Some (r, g') \<and> m_index g' = 1)"
  using generator_index_safe [of "fill 7" 7] reachable.filled [of 7]
  by (simp add: fill_def index_i_def index_i2_def index_j_def MT_LEN_def MT_IA_def)

subsection \<open>The all-zero generator\<close>

lemma twist_zero: "twist 0 0 0 = 0"
  by (simp add: twist_def)

lemma swizzle_zero: "swizzle 0 = 0"
  by (simp add: swizzle_def)

lemma well_formed_zeros: "0 \<le> k \<Longrightarrow> k < 624 \<Longrightarrow> well_formed (zeros k)"
  by (simp add: well_formed_def zeros_def)

lemma integer_zeros:
  assumes "0 \<le> k" "k < 624"
  shows "integer (zeros k) = Some (0, zeros ((k + 1) mod 624))"
proof -
  have wf: "well_formed (zeros k)" using assms by (rule well_formed_zeros)
  have i: "nat (index_i (zeros k)) < 624" "nat (index_i2 (zeros k)) < 624" "nat (index_j (zeros k)) < 624"
    using well_formed_indices [OF wf] by (auto simp: in_array_def MT_LEN_def)
  from integer_well_formed [OF wf] obtain r g' where
    g': "integer (zeros k) = Some (r, g')" "m_index g' = (k + 1) mod 624"
    by (auto simp: zeros_def)
  show ?thesis using g' wf i well_formed_indices [OF wf]
    apply (simp add: integer_def Let_def zeros_def twist_zero swizzle_zero)
    by (auto simp: list_update_same_conv)
qed

lemma draws_zeros:
  "0 \<le> k \<Longrightarrow> k < 624 \<Longrightarrow> draws n (zeros k) = Some (replicate n 0, zeros ((k + int n) mod 624))"
proof (induction n arbitrary: k)
  case 0
  then show ?case by simp
next
  case (Suc n)
  have "0 \<le> (k + 1) mod 624" "(k + 1) mod 624 < 624" by simp_all
  from Suc.IH [OF this] show ?case
    using Suc.prems by (simp add: integer_zeros mod_simps algebra_simps)
qed

lemma discard_zeros:
  "0 \<le> k \<Longrightarrow> k < 624 \<Longrightarrow> discard n (zeros k) = Some (zeros ((k + int n) mod 624))"
proof (induction n arbitrary: k)
  case 0
  then show ?case by simp
next
  case (Suc n)
  have "0 \<le> (k + 1) mod 624" "(k + 1) mod 624 < 624" by simp_all
  from Suc.IH [OF this] show ?case
    using Suc.prems by (simp add: integer_zeros mod_simps algebra_simps)
qed

lemma construct_zero: "construct 0 = Some (zeros 0)"
proof -
  have "fill 0 = zeros 0" by (simp add: fill_def zeros_def MT_LEN_def)
  then show ?thesis
    using discard_zeros [of 0 62400] by (simp add: construct_def MT_LEN_def)
qed

text \<open>
  Claim C10. Seed 0 is a fixed point: the constructor called with seed 0 returns a
  generator whose buffer is all zero; from there any number \<open>n\<close> of calls of
  \<open>integer\<close> return 0 each, and leave the buffer all zero.
\<close>

theorem seed_zero_fixed_point:
  "\<exists>g. construct 0 = Some g \<and> m_buffer g = replicate 624 0
     \<and> (\<forall>n. \<exists>g'. draws n g = Some (replicate n 0, g') \<and> m_buffer g' = replicate 624 0)"
  using draws_zeros [of 0] by (simp add: construct_zero) (simp add: zeros_def)

section \<open>Proofs: the sequences of two seeds\<close>

subsection \<open>The swizzle and the twist are injective\<close>

lemma xor_drop_bit_inj:
  fixes a b :: "'a::len word"
  assumes k: "0 < k" and eq: "a XOR drop_bit k a = b XOR drop_bit k b"
  shows "a = b"
proof -
  have "bit a n \<longleftrightarrow> bit b n" for n
  proof (induction "LENGTH('a) - n" arbitrary: n rule: less_induct)
    case less
    show ?case
    proof (cases "n < LENGTH('a)")
      case False
      then show ?thesis
        using bit_imp_le_length [of a n] bit_imp_le_length [of b n] by auto
    next
      case True
      with k have "LENGTH('a) - (k + n) < LENGTH('a) - n" by simp
      then have up: "bit a (k + n) \<longleftrightarrow> bit b (k + n)" by (rule less)
      from eq have "bit (a XOR drop_bit k a) n \<longleftrightarrow> bit (b XOR drop_bit k b) n" by simp
      then show ?thesis using up by (auto simp: bit_xor_iff bit_drop_bit_eq)
    qed
  qed
  then show ?thesis by (simp add: bit_eq_iff)
qed

lemma xor_push_bit_and_inj:
  fixes a b c :: "'a::len word"
  assumes k: "0 < k" and eq: "a XOR (push_bit k a AND c) = b XOR (push_bit k b AND c)"
  shows "a = b"
proof -
  have "bit a n \<longleftrightarrow> bit b n" for n
  proof (induction n rule: less_induct)
    case (less n)
    from eq have e: "bit (a XOR (push_bit k a AND c)) n \<longleftrightarrow> bit (b XOR (push_bit k b AND c)) n"
      by simp
    show ?case
    proof (cases "k \<le> n")
      case False
      with e show ?thesis by (auto simp: bit_xor_iff bit_and_iff bit_push_bit_iff)
    next
      case True
      with k have "n - k < n" by simp
      then have "bit a (n - k) \<longleftrightarrow> bit b (n - k)" by (rule less)
      with e show ?thesis by (auto simp: bit_xor_iff bit_and_iff bit_push_bit_iff)
    qed
  qed
  then show ?thesis by (simp add: bit_eq_iff)
qed

lemma swizzle_inj: "swizzle a = swizzle b \<Longrightarrow> a = b"
  unfolding swizzle_def Let_def
  by (blast dest: xor_drop_bit_inj [rotated] xor_push_bit_and_inj [rotated] intro: zero_less_numeral)

lemma matrix_top_bit: "bit ((0x9908B0DF :: 32 word)) 31"
  by simp

lemma odd_and_one_mult: "odd u \<Longrightarrow> (u AND 1) * (0x9908B0DF :: 32 word) = 0x9908B0DF" for u :: "32 word"
  by (simp add: and_one_eq mod_2_eq_odd)

lemma even_and_one_mult: "even u \<Longrightarrow> (u AND 1) * (0x9908B0DF :: 32 word) = 0" for u :: "32 word"
  by (simp add: and_one_eq mod_2_eq_odd)

lemma xor_left_cancel_word: "c XOR u = c XOR v \<Longrightarrow> u = v" for c u v :: "'a::len word"
  by (auto simp: bit_eq_iff bit_xor_iff)

lemma mix_top_gen:
  fixes a b :: "'a::len word"
  shows "((a AND 2 ^ n) OR (b AND mask n)) AND 2 ^ n = a AND 2 ^ n"
  by (rule bit_word_eqI) (auto simp: bit_simps)

lemma mix_low_gen:
  fixes a b :: "'a::len word"
  shows "((a AND 2 ^ n) OR (b AND mask n)) AND mask n = b AND mask n"
  by (rule bit_word_eqI) (auto simp: bit_simps)


lemma top_bit_mask: "(0x80000000 :: 32 word) = 2 ^ 31"
  by simp

lemma low_bits_mask: "(0x7fffffff :: 32 word) = mask 31"
  by (simp add: mask_eq_exp_minus_1)

lemma mix_top:
  fixes a b :: "32 word"
  shows "((a AND 0x80000000) OR (b AND 0x7fffffff)) AND 0x80000000 = a AND 0x80000000"
  unfolding top_bit_mask low_bits_mask by (rule mix_top_gen)

lemma mix_low:
  fixes a b :: "32 word"
  shows "((a AND 0x80000000) OR (b AND 0x7fffffff)) AND 0x7fffffff = b AND 0x7fffffff"
  unfolding top_bit_mask low_bits_mask by (rule mix_low_gen)

lemma top_low_eq_gen:
  fixes a b :: "'a::len word"
  assumes "a AND 2 ^ n = b AND 2 ^ n" and "a AND mask n = b AND mask n" and "LENGTH('a) = Suc n"
  shows "a = b"
proof (rule bit_word_eqI)
  fix m assume m: "m < LENGTH('a)"
  from assms have t: "bit (a AND 2 ^ n) m \<longleftrightarrow> bit (b AND 2 ^ n) m"
    and l: "bit (a AND mask n) m \<longleftrightarrow> bit (b AND mask n) m"
    by simp_all
  show "bit a m \<longleftrightarrow> bit b m"
  proof (cases "m = n")
    case True
    with t m show ?thesis by (simp add: bit_simps)
  next
    case False
    with m assms(3) have "m < n" by simp
    with l m show ?thesis by (simp add: bit_simps)
  qed
qed

lemma top_low_eq:
  fixes a b :: "32 word"
  assumes "a AND 0x80000000 = b AND 0x80000000" and "a AND 0x7fffffff = b AND 0x7fffffff"
  shows "a = b"
  using assms unfolding top_bit_mask low_bits_mask by (rule top_low_eq_gen) simp

lemma shift_mix_inj:
  fixes s t :: "32 word"
  assumes "drop_bit 1 s XOR ((s AND 1) * 0x9908B0DF) = drop_bit 1 t XOR ((t AND 1) * 0x9908B0DF)"
  shows "s = t"
proof -
  have top: "bit (drop_bit 1 u XOR ((u AND 1) * 0x9908B0DF)) 31 \<longleftrightarrow> odd u" for u :: "32 word"
  proof -
    have "\<not> bit (drop_bit 1 u) 31"
      using bit_imp_le_length [of u 32] by (auto simp: bit_drop_bit_eq)
    moreover have "bit ((u AND 1) * (0x9908B0DF :: 32 word)) 31 \<longleftrightarrow> odd u"
      using matrix_top_bit odd_and_one_mult [of u] even_and_one_mult [of u] by (cases "odd u") simp_all
    ultimately show ?thesis by (simp only: bit_xor_iff) simp
  qed
  from assms have "odd s \<longleftrightarrow> odd t"
    using top [of s] top [of t] by (simp only:)
  then have low: "(s AND 1) = (t AND 1)"
    by (simp add: and_one_eq mod_2_eq_odd)
  with assms have high: "drop_bit 1 s = drop_bit 1 t" by (simp only: xor.commute [of "drop_bit 1 _"] ) (rule xor_left_cancel_word)
  show ?thesis
  proof (rule bit_word_eqI)
    fix n
    show "bit s n \<longleftrightarrow> bit t n"
    proof (cases n)
      case 0
      with \<open>odd s \<longleftrightarrow> odd t\<close> show ?thesis by (simp add: bit_0)
    next
      case (Suc m)
      from high have "bit (drop_bit 1 s) m \<longleftrightarrow> bit (drop_bit 1 t) m" by simp
      with Suc show ?thesis by (simp add: bit_drop_bit_eq)
    qed
  qed
qed

lemma twist_inj:
  assumes "twist a b c = twist a' b' c"
  shows "a AND 0x80000000 = a' AND 0x80000000" and "b AND 0x7fffffff = b' AND 0x7fffffff"
proof -
  let ?s = "(a AND 0x80000000) OR (b AND 0x7fffffff)"
  let ?t = "(a' AND 0x80000000) OR (b' AND 0x7fffffff)"
  from assms have "drop_bit 1 ?s XOR ((?s AND 1) * 0x9908B0DF)
      = drop_bit 1 ?t XOR ((?t AND 1) * 0x9908B0DF)"
    unfolding twist_def Let_def by (rule xor_left_cancel_word)
  then have st: "?s = ?t" by (rule shift_mix_inj)
  from mix_top [of a b] mix_top [of a' b'] show "a AND 0x80000000 = a' AND 0x80000000"
    unfolding st by (simp only:)
  from mix_low [of a b] mix_low [of a' b'] show "b AND 0x7fffffff = b' AND 0x7fffffff"
    unfolding st by (simp only:)
qed

subsection \<open>Equivalence of generators goes back through a call\<close>

lemma integer_eq:
  assumes "well_formed g"
  shows "integer g = Some (swizzle (twisted g),
           \<lparr>m_buffer = (m_buffer g)[nat (m_index g) := twisted g], m_index = index_i2 g\<rparr>)"
  using well_formed_indices [OF assms]
  by (simp add: integer_def Let_def twisted_def index_i_def)

lemma index_facts:
  assumes "well_formed g"
  shows "nat (m_index g) < 624" "nat (index_i2 g) < 624" "nat (index_j g) < 624"
    "nat (index_i2 g) \<noteq> nat (m_index g)" "nat (index_j g) \<noteq> nat (m_index g)"
    "nat (index_j g) \<noteq> nat (index_i2 g)" "0 \<le> index_i2 g"
  using assms
  by (auto simp: well_formed_def index_i2_def index_j_def MT_LEN_def MT_IA_def)

lemma equivalent_back:
  assumes g: "well_formed g" and h: "well_formed h"
    and ig: "integer g = Some (x, g')" and ih: "integer h = Some (y, h')"
    and idx: "m_index g = m_index h"
    and eq: "equivalent g' h'"
  shows "equivalent g h"
proof -
  let ?i = "nat (m_index g)" and ?i2 = "nat (index_i2 g)" and ?j = "nat (index_j g)"
  let ?A = "m_buffer g" and ?B = "m_buffer h"
  have i2h: "index_i2 h = index_i2 g" and jh: "index_j h = index_j g"
    using idx by (simp_all add: index_i2_def index_j_def)
  have g': "g' = \<lparr>m_buffer = ?A[?i := twisted g], m_index = index_i2 g\<rparr>"
    using ig integer_eq [OF g] by simp
  have h': "h' = \<lparr>m_buffer = ?B[?i := twisted h], m_index = index_i2 g\<rparr>"
    using ih integer_eq [OF h] idx i2h by simp
  note f = index_facts [OF g]
  have lenA: "length ?A = 624" and lenB: "length ?B = 624"
    using g h by (simp_all add: well_formed_def)
  from eq have top2: "(?A[?i := twisted g] ! ?i2) AND 0x80000000
      = (?B[?i := twisted h] ! ?i2) AND 0x80000000"
    and rest: "\<And>k. k < 624 \<Longrightarrow> k \<noteq> ?i2 \<Longrightarrow> ?A[?i := twisted g] ! k = ?B[?i := twisted h] ! k"
    by (simp_all add: equivalent_def g' h')
  from top2 f have top2': "(?A ! ?i2) AND 0x80000000 = (?B ! ?i2) AND 0x80000000"
    by simp
  from rest [of ?i] f lenA lenB have tw: "twisted g = twisted h" by simp
  have other: "?A ! k = ?B ! k" if "k < 624" "k \<noteq> ?i" "k \<noteq> ?i2" for k
    using rest [of k] that by simp
  from other [of ?j] f have j: "?A ! ?j = ?B ! ?j" by simp
  from tw have "twist (?A ! ?i) (?A ! ?i2) (?A ! ?j) = twist (?B ! ?i) (?B ! ?i2) (?A ! ?j)"
    by (simp add: twisted_def index_i_def idx i2h jh j)
  from twist_inj [OF this] have topi: "(?A ! ?i) AND 0x80000000 = (?B ! ?i) AND 0x80000000"
    and low2: "(?A ! ?i2) AND 0x7fffffff = (?B ! ?i2) AND 0x7fffffff" .
  from top2' low2 have i2: "?A ! ?i2 = ?B ! ?i2" by (rule top_low_eq)
  have "?A ! k = ?B ! k" if "k < 624" "k \<noteq> ?i" for k
    using other [of k] i2 that by (cases "k = ?i2") simp_all
  with topi idx show ?thesis by (simp add: equivalent_def)
qed

lemma discard_not_equivalent:
  assumes "well_formed g" "well_formed h" "m_index g = m_index h" "\<not> equivalent g h"
    "discard n g = Some g'" "discard n h = Some h'"
  shows "\<not> equivalent g' h'"
  using assms
proof (induction n arbitrary: g h)
  case 0
  then show ?case by simp
next
  case (Suc n)
  from integer_well_formed [OF Suc.prems(1)] obtain x g1 where
    g1: "integer g = Some (x, g1)" "well_formed g1" "m_index g1 = (m_index g + 1) mod 624"
    by blast
  from integer_well_formed [OF Suc.prems(2)] obtain y h1 where
    h1: "integer h = Some (y, h1)" "well_formed h1" "m_index h1 = (m_index h + 1) mod 624"
    by blast
  have ne: "\<not> equivalent g1 h1"
    using equivalent_back [OF Suc.prems(1,2) g1(1) h1(1) Suc.prems(3)] Suc.prems(4) by blast
  have "m_index g1 = m_index h1" using g1(3) h1(3) Suc.prems(3) by simp
  from Suc.IH [OF g1(2) h1(2) this ne] Suc.prems(5,6) g1(1) h1(1) show ?case by simp
qed

lemma discard_draws: "discard n g = map_option snd (draws n g)"
  by (induction n arbitrary: g) (auto split: option.splits)

lemma draws_agree:
  assumes "well_formed g" "well_formed h" "m_index g = int i" "m_index h = int i"
    "i + n \<le> 624" "\<forall>k<i. m_buffer g ! k = m_buffer h ! k"
    "draws n g = Some (xs, g')" "draws n h = Some (xs, h')"
  shows "(\<forall>k<i + n. m_buffer g' ! k = m_buffer h' ! k) \<and> m_index g' = m_index h'"
  using assms
proof (induction n arbitrary: g h i xs)
  case 0
  then show ?case by simp
next
  case (Suc n)
  let ?g1 = "\<lparr>m_buffer = (m_buffer g)[i := twisted g], m_index = index_i2 g\<rparr>"
  let ?h1 = "\<lparr>m_buffer = (m_buffer h)[i := twisted h], m_index = index_i2 h\<rparr>"
  have ig: "integer g = Some (swizzle (twisted g), ?g1)"
    using integer_eq [OF Suc.prems(1)] Suc.prems(3) by simp
  have ih: "integer h = Some (swizzle (twisted h), ?h1)"
    using integer_eq [OF Suc.prems(2)] Suc.prems(4) by simp
  from Suc.prems(7) ig obtain xs' where
    dg: "draws n ?g1 = Some (xs', g')" and xg: "xs = swizzle (twisted g) # xs'"
    by (auto split: option.splits)
  from Suc.prems(8) ih xg have
    dh: "draws n ?h1 = Some (xs', h')" and "swizzle (twisted g) = swizzle (twisted h)"
    by (auto split: option.splits)
  then have tw: "twisted g = twisted h" by (simp add: swizzle_inj)
  have len: "length (m_buffer g) = 624" "length (m_buffer h) = 624"
    using Suc.prems(1,2) by (simp_all add: well_formed_def)
  have i: "i < 624" using Suc.prems(5) by simp
  have agree1: "\<forall>k<Suc i. m_buffer ?g1 ! k = m_buffer ?h1 ! k"
    using Suc.prems(6) tw len i by (auto simp: nth_list_update less_Suc_eq)
  have wf1: "well_formed ?g1" "well_formed ?h1"
    using integer_preserves_well_formed [OF Suc.prems(1) ig]
      integer_preserves_well_formed [OF Suc.prems(2) ih] by simp_all
  show ?case
  proof (cases n)
    case 0
    with dg dh agree1 Suc.prems(3,4) show ?thesis
      by (auto simp: index_i2_def)
  next
    case (Suc m)
    with Suc.prems(5) have "i + 1 < 624" by simp
    then have i1: "m_index ?g1 = int (Suc i)" "m_index ?h1 = int (Suc i)"
      using Suc.prems(3,4) by (simp_all add: index_i2_def MT_LEN_def)
    have "Suc i + n \<le> 624" using Suc.prems(5) by simp
    from Suc.IH [OF wf1 i1 this agree1 dg dh] show ?thesis by simp
  qed
qed

lemma draws_well_formed:
  "well_formed g \<Longrightarrow> \<exists>xs g'. draws n g = Some (xs, g') \<and> length xs = n \<and> well_formed g'"
proof (induction n arbitrary: g)
  case 0
  then show ?case by simp
next
  case (Suc n)
  from integer_well_formed [OF Suc.prems] obtain x g1 where
    g1: "integer g = Some (x, g1)" "well_formed g1" by blast
  from Suc.IH [OF g1(2)] g1(1) show ?case by auto
qed

lemma fill_not_equivalent: "a \<noteq> b \<Longrightarrow> \<not> equivalent (fill a) (fill b)"
proof
  assume ab: "a \<noteq> b" and "equivalent (fill a) (fill b)"
  then have "\<forall>k<624. k \<noteq> 0 \<longrightarrow> replicate 624 a ! k = replicate 624 b ! k"
    by (simp add: equivalent_def fill_def MT_LEN_def)
  then have "(1::nat) < 624 \<longrightarrow> (1::nat) \<noteq> 0
      \<longrightarrow> replicate 624 a ! 1 = replicate 624 b ! 1"
    by blast
  with ab show False by simp
qed

lemma sequences_differ:
  assumes "a \<noteq> b"
  shows "\<exists>xs ys. sequence a 624 = Some xs \<and> sequence b 624 = Some ys \<and> xs \<noteq> ys"
proof -
  from discard_well_formed [OF well_formed_fill, of 62400 a] obtain g where
    g: "discard 62400 (fill a) = Some g" "well_formed g" "m_index g = 0"
    by (auto simp: fill_def)
  from discard_well_formed [OF well_formed_fill, of 62400 b] obtain h where
    h: "discard 62400 (fill b) = Some h" "well_formed h" "m_index h = 0"
    by (auto simp: fill_def)
  have ne: "\<not> equivalent g h"
    using discard_not_equivalent [OF well_formed_fill well_formed_fill _
        fill_not_equivalent [OF assms] g(1) h(1)]
    by (simp add: fill_def)
  from draws_well_formed [OF g(2), of 624] obtain xs g' where
    xs: "draws 624 g = Some (xs, g')" and wf': "well_formed g'" by blast
  from draws_well_formed [OF h(2), of 624] obtain ys h' where
    ys: "draws 624 h = Some (ys, h')" by blast
  have ne': "\<not> equivalent g' h'"
    using discard_not_equivalent [OF g(2) h(2) _ ne, of 624 g' h'] g(3) h(3) xs ys
    by (simp add: discard_draws)
  have "xs \<noteq> ys"
  proof
    assume "xs = ys"
    with ys have ys': "draws 624 h = Some (xs, h')" by simp
    have "(\<forall>k<0 + 624. m_buffer g' ! k = m_buffer h' ! k) \<and> m_index g' = m_index h'"
      by (rule draws_agree [OF g(2) h(2) _ _ _ _ xs ys']) (simp_all add: g(3) h(3))
    moreover have "nat (m_index g') < 624"
      by (rule index_facts(1) [OF wf'])
    ultimately have "equivalent g' h'" by (simp add: equivalent_def)
    with ne' show False ..
  qed
  moreover have "sequence a 624 = Some xs" "sequence b 624 = Some ys"
    using g(1) h(1) xs ys by (simp_all add: sequence_def construct_def MT_LEN_def)
  ultimately show ?thesis by blast
qed

lemma sequence_defined: "\<exists>xs. sequence seed n = Some xs \<and> length xs = n"
proof -
  from discard_well_formed [OF well_formed_fill, of 62400 seed] obtain g where
    g: "discard 62400 (fill seed) = Some g" "well_formed g" by blast
  from draws_well_formed [OF g(2), of n] g(1) show ?thesis
    by (auto simp: sequence_def construct_def MT_LEN_def)
qed

text \<open>
  Claim C7. The sequence of results depends on the seed only: two generators constructed
  with the same seed give the same results over any number \<open>n\<close> of calls (and the
  calls do return). Two generators constructed with different seeds differ within their
  first 624 results; in particular those of the two workers, with seeds 1 and 2, do.
\<close>

theorem generator_deterministic_per_seed:
  "(seed = seed' \<longrightarrow> sequence seed n = sequence seed' n)
   \<and> (\<exists>xs. sequence seed n = Some xs \<and> length xs = n)
   \<and> (seed \<noteq> seed' \<longrightarrow> sequence seed 624 \<noteq> sequence seed' 624)
   \<and> (\<exists>xs ys. sequence 1 624 = Some xs \<and> sequence 2 624 = Some ys \<and> xs \<noteq> ys)"
proof -
  have "sequence seed 624 \<noteq> sequence seed' 624" if "seed \<noteq> seed'"
    using sequences_differ [OF that] by auto
  moreover have "\<exists>xs ys. sequence 1 624 = Some xs \<and> sequence 2 624 = Some ys \<and> xs \<noteq> ys"
    by (rule sequences_differ) simp
  ultimately show ?thesis using sequence_defined [of seed n] by blast
qed

theorem generator_deterministic_per_seed_witness:
  "(5 :: 32 word) = 5 \<and> sequence 5 3 = sequence 5 3
   \<and> (5 :: 32 word) \<noteq> 6 \<and> sequence 5 624 \<noteq> sequence 6 624"
  using generator_deterministic_per_seed [of 5 5 3] generator_deterministic_per_seed [of 5 6 3]
  by simp
section \<open>Proofs: the delay always ends\<close>

subsection \<open>The generator follows the unrolled buffer\<close>

lemma xval_start: "n < 624 \<Longrightarrow> xval seed n = seed"
  by (simp add: xval.simps)

lemma xval_next: "xval seed (n + 624) = twist (xval seed n) (xval seed (n + 1)) (xval seed (n + 397))"
  by (subst xval.simps) (simp add: add_ac)

lemma tracks_fill: "tracks seed 0 0 (fill seed)"
  by (simp add: tracks_def fill_def MT_LEN_def xval_start)

lemma tracks_well_formed: "tracks seed q r g \<Longrightarrow> well_formed g"
  by (simp add: tracks_def well_formed_def)

lemma tracks_twisted:
  assumes "tracks seed q r g"
  shows "twisted g = xval seed (624 * q + r + 624)"
proof -
  let ?n = "624 * q + r"
  from assms have r: "r < 624" and idx: "m_index g = int r"
    and buf: "\<And>k. k < 624 \<Longrightarrow>
      m_buffer g ! k = xval seed (624 * q + k + (if k < r then 624 else 0))"
    by (simp_all add: tracks_def)
  have a: "m_buffer g ! nat (index_i g) = xval seed ?n"
    using buf [of r] r idx by (simp add: index_i_def)
  have b: "m_buffer g ! nat (index_i2 g) = xval seed (?n + 1)"
  proof (cases "r = 623")
    case True
    then have "nat (index_i2 g) = 0" using idx by (simp add: index_i2_def MT_LEN_def)
    with buf [of 0] True show ?thesis by (simp add: add_ac)
  next
    case False
    with r have "nat (index_i2 g) = r + 1" using idx
      by (simp add: index_i2_def MT_LEN_def nat_add_distrib)
    with buf [of "r + 1"] r False show ?thesis by (simp add: add.assoc)
  qed
  have c: "m_buffer g ! nat (index_j g) = xval seed (?n + 397)"
  proof (cases "r < 227")
    case True
    then have "nat (index_j g) = r + 397" using idx
      by (simp add: index_j_def MT_LEN_def MT_IA_def nat_add_distrib)
    with buf [of "r + 397"] True show ?thesis by (simp add: add.assoc)
  next
    case False
    with r have j: "nat (index_j g) = r - 227" using idx
      by (simp add: index_j_def MT_LEN_def MT_IA_def nat_diff_distrib)
    have "624 * q + (r - 227) + 624 = ?n + 397" using False by simp
    with buf [of "r - 227"] r False j show ?thesis by (simp add: add_ac)
  qed
  show ?thesis
    unfolding twisted_def a b c by (simp add: xval_next)
qed

lemma tracks_step:
  assumes "tracks seed q r g"
  shows "\<exists>g'. integer g = Some (result_at seed (624 * q + r), g')
           \<and> tracks seed (if r = 623 then q + 1 else q) (if r = 623 then 0 else r + 1) g'"
proof -
  let ?g' = "\<lparr>m_buffer = (m_buffer g)[nat (m_index g) := twisted g], m_index = index_i2 g\<rparr>"
  from assms have r: "r < 624" and idx: "m_index g = int r" and len: "length (m_buffer g) = 624"
    and buf: "\<And>k. k < 624 \<Longrightarrow>
      m_buffer g ! k = xval seed (624 * q + k + (if k < r then 624 else 0))"
    by (simp_all add: tracks_def)
  have tw: "twisted g = xval seed (624 * q + r + 624)" by (rule tracks_twisted [OF assms])
  have int: "integer g = Some (result_at seed (624 * q + r), ?g')"
    using integer_eq [OF tracks_well_formed [OF assms]] by (simp add: tw result_at_def)
  have "tracks seed (if r = 623 then q + 1 else q) (if r = 623 then 0 else r + 1) ?g'"
  proof (cases "r = 623")
    case True
    have "(m_buffer g)[623 := twisted g] ! k = xval seed (624 * (q + 1) + k)" if "k < 624" for k
    proof (cases "k = 623")
      case True
      with len tw \<open>r = 623\<close> show ?thesis by simp
    next
      case False
      with that have "k < 623" by simp
      with buf [of k] that True False show ?thesis by (simp add: add_ac)
    qed
    with True idx len show ?thesis
      by (simp add: tracks_def index_i2_def MT_LEN_def)
  next
    case False
    have "(m_buffer g)[r := twisted g] ! k
        = xval seed (624 * q + k + (if k < r + 1 then 624 else 0))" if "k < 624" for k
    proof (cases "k = r")
      case True
      with len tw r show ?thesis by simp
    next
      case False
      with buf [of k] that show ?thesis by (auto simp: less_Suc_eq)
    qed
    with False idx len r show ?thesis
      by (simp add: tracks_def index_i2_def MT_LEN_def)
  qed
  with int show ?thesis by blast
qed

lemma tracks_position:
  assumes "tracks seed q r g"
  shows "(if r = 623 then q + 1 else q) = (624 * q + r + 1) div 624"
    and "(if r = 623 then 0 else r + 1) = (624 * q + r + 1) mod 624"
  using assms by (auto simp: tracks_def)

lemma discard_tracks:
  "tracks seed (N div 624) (N mod 624) g \<Longrightarrow> discard n g = Some g'
     \<Longrightarrow> tracks seed ((N + n) div 624) ((N + n) mod 624) g'"
proof (induction n arbitrary: N g)
  case 0
  then show ?case by simp
next
  case (Suc n)
  from tracks_step [OF Suc.prems(1)] obtain g1 where
    g1: "integer g = Some (result_at seed (624 * (N div 624) + N mod 624), g1)"
      "tracks seed (if N mod 624 = 623 then N div 624 + 1 else N div 624)
         (if N mod 624 = 623 then 0 else N mod 624 + 1) g1"
    by blast
  from g1(2) have "tracks seed ((N + 1) div 624) ((N + 1) mod 624) g1"
    using tracks_position [OF Suc.prems(1)] by simp
  from Suc.IH [OF this] Suc.prems(2) g1(1) show ?case by simp
qed

lemma after_tracks:
  "discard n (fill seed) = Some g \<Longrightarrow> tracks seed (n div 624) (n mod 624) g"
  using discard_tracks [of seed 0 "fill seed" n g] tracks_fill [of seed] by simp

lemma discard_Suc_end:
  "discard n g0 = Some g \<Longrightarrow> integer g = Some (x, g') \<Longrightarrow> discard (Suc n) g0 = Some g'"
proof (induction n arbitrary: g0)
  case 0
  then show ?case by simp
next
  case (Suc n)
  from Suc.prems(1) obtain y g1 where
    g1: "integer g0 = Some (y, g1)" "discard n g1 = Some g"
    by (auto split: option.splits)
  from Suc.IH [OF g1(2) Suc.prems(2)] g1(1) show ?case by simp
qed

lemma integer_after:
  assumes "discard n (fill seed) = Some g"
  shows "\<exists>g'. integer g = Some (result_at seed n, g') \<and> discard (Suc n) (fill seed) = Some g'"
proof -
  from tracks_step [OF after_tracks [OF assms]] obtain g' where
    g': "integer g = Some (result_at seed n, g')" by auto
  from discard_Suc_end [OF assms g'] g' show ?thesis by blast
qed

text \<open>
  The first multiples of 8: call 1362 for seed 1 and call 1247 for seed 2, both among the
  warm-up calls. By the period they come again after any number of calls.
\<close>

lemma hit1: "result_at 1 1362 mod 8 = 0"
  by (simp add: result_at_def xval.simps twist_def swizzle_def)

lemma hit2: "result_at 2 1247 mod 8 = 0"
  by (simp add: result_at_def xval.simps twist_def swizzle_def)

subsection \<open>The results are periodic\<close>

lemma twist_top_cong:
  "a AND 0x80000000 = a' AND 0x80000000 \<Longrightarrow> twist a b c = twist a' b c"
  by (simp add: twist_def)

lemma canon_equivalent:
  assumes g: "well_formed g" and h: "well_formed h" and c: "canon g = canon h"
  shows "equivalent g h"
proof -
  let ?i = "nat (m_index g)"
  from c have idx: "m_index g = m_index h"
    and l: "(m_buffer g)[?i := (m_buffer g ! ?i) AND 0x80000000]
          = (m_buffer h)[?i := (m_buffer h ! ?i) AND 0x80000000]"
    by (auto simp: canon_def)
  have i: "?i < 624" by (rule index_facts(1) [OF g])
  have len: "length (m_buffer g) = 624" "length (m_buffer h) = 624"
    using g h by (simp_all add: well_formed_def)
  from l have n: "(m_buffer g)[?i := (m_buffer g ! ?i) AND 0x80000000] ! k
          = (m_buffer h)[?i := (m_buffer h ! ?i) AND 0x80000000] ! k" for k
    by simp
  from n [of ?i] i len have "(m_buffer g ! ?i) AND 0x80000000 = (m_buffer h ! ?i) AND 0x80000000"
    by simp
  moreover have "m_buffer g ! k = m_buffer h ! k" if "k < 624" "k \<noteq> ?i" for k
    using n [of k] that by simp
  ultimately show ?thesis using idx by (simp add: equivalent_def)
qed

lemma canon_range:
  "well_formed g \<Longrightarrow> canon g \<in> {0..<624} \<times> {xs. set xs \<subseteq> UNIV \<and> length xs = 624}"
  by (simp add: canon_def well_formed_def)

lemma finite_canon_range:
  "finite ({0..<624 :: int} \<times> {xs :: 32 word list. set xs \<subseteq> UNIV \<and> length xs = 624})"
  by (intro finite_cartesian_product finite_lists_length_eq) simp_all

lemma pigeonhole_nat:
  fixes f :: "nat \<Rightarrow> 'a"
  assumes "finite S" and "\<And>n. f n \<in> S"
  shows "\<exists>m n. m < n \<and> f m = f n"
proof (rule ccontr)
  assume no: "\<not> (\<exists>m n. m < n \<and> f m = f n)"
  have "inj f"
  proof (rule injI)
    fix a b assume "f a = f b"
    with no show "a = b" by (metis linorder_neqE_nat)
  qed
  moreover have "range f \<subseteq> S" using assms(2) by auto
  then have "finite (range f)" using assms(1) by (rule finite_subset)
  ultimately have "finite (UNIV :: nat set)" by (rule finite_imageD [rotated])
  then show False by simp
qed

lemma equivalent_forward:
  assumes g: "well_formed g" and h: "well_formed h" and eq: "equivalent g h"
    and ig: "integer g = Some (x, g')" and ih: "integer h = Some (y, h')"
  shows "x = y \<and> equivalent g' h'"
proof -
  from eq have idx: "m_index g = m_index h"
    and top: "(m_buffer g ! nat (m_index g)) AND 0x80000000
            = (m_buffer h ! nat (m_index g)) AND 0x80000000"
    and rest: "\<And>k. k < 624 \<Longrightarrow> k \<noteq> nat (m_index g) \<Longrightarrow> m_buffer g ! k = m_buffer h ! k"
    by (auto simp: equivalent_def)
  note f = index_facts [OF g]
  have i2: "index_i2 h = index_i2 g" and j: "index_j h = index_j g"
    using idx by (simp_all add: index_i2_def index_j_def)
  have tw: "twisted g = twisted h"
    using rest [OF f(2) f(4)] rest [OF f(3) f(5)] twist_top_cong [OF top]
    by (simp add: twisted_def index_i_def idx [symmetric] i2 j)
  have g': "g' = \<lparr>m_buffer = (m_buffer g)[nat (m_index g) := twisted g], m_index = index_i2 g\<rparr>"
    and x: "x = swizzle (twisted g)"
    using ig integer_eq [OF g] by simp_all
  have h': "h' = \<lparr>m_buffer = (m_buffer h)[nat (m_index g) := twisted g], m_index = index_i2 g\<rparr>"
    and y: "y = swizzle (twisted g)"
    using ih integer_eq [OF h] idx i2 tw by simp_all
  have len: "length (m_buffer g) = 624" "length (m_buffer h) = 624"
    using g h by (simp_all add: well_formed_def)
  have "(m_buffer g)[nat (m_index g) := twisted g] ! k
      = (m_buffer h)[nat (m_index g) := twisted g] ! k" if "k < 624" for k
    using rest [of k] that len by (cases "k = nat (m_index g)") simp_all
  then show ?thesis
    using x y f(2) by (simp add: equivalent_def g' h')
qed

lemma equivalent_back_index:
  assumes g: "well_formed g" and h: "well_formed h"
    and ig: "integer g = Some (x, g')" and ih: "integer h = Some (y, h')"
    and eq: "equivalent g' h'"
  shows "equivalent g h"
proof -
  from eq have "m_index g' = m_index h'" by (simp add: equivalent_def)
  moreover from integer_well_formed [OF g] ig have "m_index g' = (m_index g + 1) mod 624" by simp
  moreover from integer_well_formed [OF h] ih have "m_index h' = (m_index h + 1) mod 624" by simp
  ultimately have m: "(m_index g + 1) mod 624 = (m_index h + 1) mod 624" by simp
  from g h have b: "0 \<le> m_index g" "m_index g < 624" "0 \<le> m_index h" "m_index h < 624"
    by (simp_all add: well_formed_def)
  have "m_index g = m_index h"
  proof (cases "m_index g = 623")
    case True
    with m have "(m_index h + 1) mod 624 = 0" by simp
    with b True show ?thesis by (cases "m_index h = 623") simp_all
  next
    case False
    with b m have "m_index g + 1 = (m_index h + 1) mod 624" by simp
    with b False show ?thesis by (cases "m_index h = 623") simp_all
  qed
  from equivalent_back [OF g h ig ih this eq] show ?thesis .
qed

lemma discard_add:
  "discard (a + b) g = (case discard a g of None \<Rightarrow> None | Some g' \<Rightarrow> discard b g')"
  by (induction a arbitrary: g) (auto split: option.splits)

lemma discard_equivalent_back:
  assumes "well_formed a" "well_formed b" "discard m a = Some a'" "discard m b = Some b'"
    "equivalent a' b'"
  shows "equivalent a b"
  using assms
proof (induction m arbitrary: a b)
  case 0
  then show ?case by simp
next
  case (Suc m)
  from integer_well_formed [OF Suc.prems(1)] obtain x a1 where
    a1: "integer a = Some (x, a1)" "well_formed a1" by blast
  from integer_well_formed [OF Suc.prems(2)] obtain y b1 where
    b1: "integer b = Some (y, b1)" "well_formed b1" by blast
  from Suc.prems(3,4) a1(1) b1(1) have "discard m a1 = Some a'" "discard m b1 = Some b'"
    by simp_all
  from Suc.IH [OF a1(2) b1(2) this Suc.prems(5)] have "equivalent a1 b1" .
  from equivalent_back_index [OF Suc.prems(1,2) a1(1) b1(1) this] show ?case .
qed

lemma discard_equivalent_forward:
  assumes "well_formed a" "well_formed b" "equivalent a b"
    "discard m a = Some a'" "discard m b = Some b'"
  shows "equivalent a' b'"
  using assms
proof (induction m arbitrary: a b)
  case 0
  then show ?case by simp
next
  case (Suc m)
  from integer_well_formed [OF Suc.prems(1)] obtain x a1 where
    a1: "integer a = Some (x, a1)" "well_formed a1" by blast
  from integer_well_formed [OF Suc.prems(2)] obtain y b1 where
    b1: "integer b = Some (y, b1)" "well_formed b1" by blast
  from equivalent_forward [OF Suc.prems(1,2,3) a1(1) b1(1)] have e: "equivalent a1 b1" by simp
  from Suc.prems(4,5) a1(1) b1(1) have "discard m a1 = Some a'" "discard m b1 = Some b'"
    by simp_all
  from Suc.IH [OF a1(2) b1(2) e this] show ?case .
qed

lemma after_defined: "\<exists>g. discard n (fill seed) = Some g \<and> well_formed g"
  using discard_well_formed [OF well_formed_fill, of n seed] by blast

lemma results_periodic: "\<exists>P>0. \<forall>k. result_at seed (k + P) = result_at seed k"
proof -
  let ?S = "{0..<624 :: int} \<times> {xs :: 32 word list. set xs \<subseteq> UNIV \<and> length xs = 624}"
  let ?f = "\<lambda>n. canon (the (discard n (fill seed)))"
  have "?f n \<in> ?S" for n
    using after_defined [of n seed] canon_range by auto
  from pigeonhole_nat [of ?S ?f, OF finite_canon_range this] obtain m n where
    mn: "m < n" "?f m = ?f n" by blast
  obtain gm where gm: "discard m (fill seed) = Some gm" "well_formed gm"
    using after_defined by blast
  obtain gn where gn: "discard n (fill seed) = Some gn" "well_formed gn"
    using after_defined by blast
  define P where "P = n - m"
  obtain gP where gP: "discard P (fill seed) = Some gP" "well_formed gP"
    using after_defined by blast
  have "n = P + m" using mn(1) by (simp add: P_def)
  with gn(1) gP(1) have gPn: "discard m gP = Some gn"
    by (simp add: discard_add)
  from mn(2) gm(1) gn(1) have "canon gm = canon gn" by simp
  from canon_equivalent [OF gm(2) gn(2) this] have "equivalent gm gn" .
  from discard_equivalent_back [OF well_formed_fill gP(2) gm(1) gPn this]
  have start: "equivalent (fill seed) gP" .
  have "result_at seed (k + P) = result_at seed k" for k
  proof -
    obtain gk where gk: "discard k (fill seed) = Some gk" "well_formed gk"
      using after_defined by blast
    obtain gkP where gkP: "discard (P + k) (fill seed) = Some gkP" "well_formed gkP"
      using after_defined by blast
    from gkP(1) gP(1) have "discard k gP = Some gkP" by (simp add: discard_add)
    from discard_equivalent_forward [OF well_formed_fill gP(2) start gk(1) this]
    have e: "equivalent gk gkP" .
    from integer_after [OF gk(1)] obtain g1 where
      g1: "integer gk = Some (result_at seed k, g1)" by blast
    from integer_after [OF gkP(1)] obtain g2 where
      g2: "integer gkP = Some (result_at seed (P + k), g2)" by blast
    from equivalent_forward [OF gk(2) gkP(2) e g1 g2] show ?thesis by (simp add: add.commute)
  qed
  moreover have "0 < P" using mn(1) by (simp add: P_def)
  ultimately show ?thesis by blast
qed

lemma hits_forever:
  assumes "result_at seed p mod 8 = 0"
  shows "\<exists>k. result_at seed (N + k) mod 8 = 0"
proof -
  from results_periodic [of seed] obtain P where
    P: "0 < P" "\<And>k. result_at seed (k + P) = result_at seed k" by blast
  have rep: "result_at seed (p + t * P) = result_at seed p" for t
  proof (induction t)
    case 0
    show ?case by simp
  next
    case (Suc t)
    have "p + Suc t * P = (p + t * P) + P" by simp
    then have "result_at seed (p + Suc t * P) = result_at seed ((p + t * P) + P)"
      by (rule arg_cong)
    also have "\<dots> = result_at seed (p + t * P)" by (rule P(2))
    finally show ?case using Suc by simp
  qed
  have "N \<le> p + N * P" using P(1) by (simp add: trans_le_add2)
  then have "N + (p + N * P - N) = p + N * P" by simp
  with rep [of N] assms have "result_at seed (N + (p + N * P - N)) mod 8 = 0" by simp
  then show ?thesis ..
qed

lemma delay_length:
  assumes "result_at seed p mod 8 = 0"
  shows "\<exists>k. result_at seed (N + k) mod 8 = 0 \<and> (\<forall>j<k. result_at seed (N + j) mod 8 \<noteq> 0)"
  using hits_forever [OF assms, of N]
  by (simp add: exists_least_iff [of "\<lambda>k. result_at seed (N + k) mod 8 = 0"])

lemma delay_length_workers:
  "\<exists>k. result_at 1 (N + k) mod 8 = 0 \<and> (\<forall>j<k. result_at 1 (N + j) mod 8 \<noteq> 0)"
  "\<exists>k. result_at 2 (N + k) mod 8 = 0 \<and> (\<forall>j<k. result_at 2 (N + j) mod 8 \<noteq> 0)"
  by (rule delay_length [OF hit1], rule delay_length [OF hit2])
section \<open>Proofs: the semaphore\<close>













text \<open>
  Claim C2. A thread whose next call is \<open>sem_signal\<close> completes it in one step, which
  adds one to the count (in the 32-bit arithmetic of the atomic); there is no other
  outcome. A thread whose next call is \<open>sem_wait\<close> returns from it in a step exactly
  when that step is the \<open>compare_exchange_strong\<close> on a count that is strictly positive
  and equal to the value loaded, and the step takes the count to that value minus one.
  In every other step of \<open>sem_wait\<close> the count is unchanged and the call is still to
  return: after the load the thread goes to the test, after a non-positive read or a
  failed exchange to \<open>sched_yield\<close>, and from there back to the load.
\<close>

theorem sem_signal_wait_contract:
  assumes "t < length (clients s)" and "pending (clients s ! t) = c # rest"
  shows "(c = Signal \<longrightarrow>
            sem_count (client_step t s) = sem_count s + 1
          \<and> pending (clients (client_step t s) ! t) = rest
          \<and> signals_completed (client_step t s) = Suc (signals_completed s)
          \<and> waits_returned (client_step t s) = waits_returned s)
       \<and> (c = Wait \<longrightarrow>
            signals_completed (client_step t s) = signals_completed s
          \<and> (if at (clients s ! t) = At_cas (sem_count s) \<and> 0 <s sem_count s
             then sem_count (client_step t s) = sem_count s - 1
                \<and> pending (clients (client_step t s) ! t) = rest
                \<and> waits_returned (client_step t s) = Suc (waits_returned s)
             else sem_count (client_step t s) = sem_count s
                \<and> pending (clients (client_step t s) ! t) = Wait # rest
                \<and> waits_returned (client_step t s) = waits_returned s
                \<and> at (clients (client_step t s) ! t)
                    = (case at (clients s ! t) of
                         At_load \<Rightarrow> At_cas (sem_count s)
                       | At_cas oldCount \<Rightarrow> At_yield
                       | At_yield \<Rightarrow> At_load)))"
proof (cases c)
  case Signal
  with assms show ?thesis
    by (simp add: client_step_def sem_signal_def)
next
  case Wait
  show ?thesis
  proof (cases "at (clients s ! t)")
    case At_load
    with assms Wait show ?thesis by (simp add: client_step_def)
  next
    case (At_cas oldCount)
    with assms Wait show ?thesis by (auto simp: client_step_def)
  next
    case At_yield
    with assms Wait show ?thesis by (simp add: client_step_def)
  qed
qed

theorem sem_signal_wait_contract_witness:
  "(0 :: nat) < length (clients \<lparr>sem_count = 2, clients = [\<lparr>pending = [Wait], at = At_cas 2\<rparr>],
        signals_completed = 2, waits_returned = 0\<rparr>)
   \<and> client_step 0 \<lparr>sem_count = 2, clients = [\<lparr>pending = [Wait], at = At_cas 2\<rparr>],
        signals_completed = 2, waits_returned = 0\<rparr>
      = \<lparr>sem_count = 1, clients = [\<lparr>pending = [], at = At_load\<rparr>],
        signals_completed = 2, waits_returned = 1\<rparr>"
  using sem_signal_wait_contract [of 0 "\<lparr>sem_count = 2,
    clients = [\<lparr>pending = [Wait], at = At_cas 2\<rparr>],
    signals_completed = 2, waits_returned = 0\<rparr>" Wait "[]"]
  by (simp add: client_step_def word_sless_alt)

section \<open>Proofs: the main program\<close>

subsection \<open>Every step keeps each thread in its order\<close>

lemma follows_snoc:
  "follows f q (es @ [e]) = (case follows f q es of None \<Rightarrow> None | Some q' \<Rightarrow> f q' e)"
  by (induction es arbitrary: q) (auto split: option.splits)

lemma sem_wait_step_cases:
  obtains v where "sem_wait_step c p = (v, None)"
  | v p' where "sem_wait_step c p = (v, Some p')"
  by (cases "sem_wait_step c p") (metis option.exhaust prod.collapse prod.inject)

lemma report_not_empty: "report d i \<noteq> []"
  by (simp add: report_def)

lemma main_step_ok:
  assumes "main_ok c" and "main_step m c = (m', c')"
  shows "main_ok c'"
proof (cases "m_pc c")
  case M_reset_X
  with assms show ?thesis
    by (auto simp: main_ok_def main_step_def follows_snoc controller_order_def
        detections_def inspections_def)
next
  case M_reset_Y
  with assms show ?thesis
    by (auto simp: main_ok_def main_step_def follows_snoc controller_order_def
        detections_def inspections_def)
next
  case M_signal1
  with assms show ?thesis
    by (auto simp: main_ok_def main_step_def follows_snoc controller_order_def
        detections_def inspections_def)
next
  case M_signal2
  with assms show ?thesis
    by (auto simp: main_ok_def main_step_def follows_snoc controller_order_def
        detections_def inspections_def)
next
  case (M_wait1 p)
  show ?thesis
  proof (cases rule: sem_wait_step_cases [of "sema m endSema" p])
    case (1 v)
    with assms M_wait1 show ?thesis
      by (auto simp: main_ok_def main_step_def follows_snoc controller_order_def
        detections_def inspections_def)
  next
    case (2 v p')
    with assms M_wait1 show ?thesis
      by (auto simp: main_ok_def main_step_def follows_snoc controller_order_def
        detections_def inspections_def)
  qed
next
  case (M_wait2 p)
  show ?thesis
  proof (cases rule: sem_wait_step_cases [of "sema m endSema" p])
    case (1 v)
    with assms M_wait2 show ?thesis
      by (auto simp: main_ok_def main_step_def follows_snoc controller_order_def
        detections_def inspections_def)
  next
    case (2 v p')
    with assms M_wait2 show ?thesis
      by (auto simp: main_ok_def main_step_def follows_snoc controller_order_def
        detections_def inspections_def)
  qed
next
  case M_check
  show ?thesis
  proof (cases "var m r1 = 0 \<and> var m r2 = 0")
    case True
    with assms M_check show ?thesis
      by (auto simp: main_ok_def main_step_def follows_snoc controller_order_def check_def
          detections_def inspections_def)
  next
    case False
    with assms M_check show ?thesis
      by (auto simp: main_ok_def main_step_def follows_snoc controller_order_def check_def
          detections_def inspections_def)
  qed
qed

lemma draws_snoc:
  "draws n g = Some (xs, g') \<Longrightarrow> integer g' = Some (r, g'')
     \<Longrightarrow> draws (Suc n) g = Some (xs @ [r], g'')"
proof (induction n arbitrary: g xs)
  case 0
  then show ?case by simp
next
  case (Suc n)
  from Suc.prems(1) obtain x g1 ys where
    g1: "integer g = Some (x, g1)" "draws n g1 = Some (ys, g')" "xs = x # ys"
    by (auto split: option.splits)
  from Suc.IH [OF g1(2) Suc.prems(2)] g1(1,3) show ?case by simp
qed

lemma randoms_snoc:
  "randoms (es @ [e]) = randoms es @ (case e of Random v \<Rightarrow> [v] | _ \<Rightarrow> [])"
  by (simp add: randoms_def)

lemma threadFunc_step_ok:
  assumes "worker_ok w s"
  shows "\<exists>m' s'. threadFunc_step cfg w m s = Some (m', s') \<and> worker_ok w s'"
proof (cases "w_pc s")
  case W_construct
  from discard_well_formed [OF well_formed_fill, of 62400 "seed_of w"] obtain g where
    "construct (seed_of w) = Some g" "well_formed g"
    by (auto simp: construct_def MT_LEN_def)
  with assms W_construct show ?thesis
    by (simp add: threadFunc_step_def worker_ok_def randoms_def)
next
  case (W_begin_wait p)
  show ?thesis
  proof (cases rule: sem_wait_step_cases [of "sema m (begin_sema w)" p])
    case (1 v)
    with assms W_begin_wait show ?thesis
      by (cases w)
        (simp_all add: threadFunc_step_def worker_ok_def follows_snoc worker_order_def
          randoms_snoc)
  next
    case (2 v p')
    with assms W_begin_wait show ?thesis
      by (simp add: threadFunc_step_def worker_ok_def)
  qed
next
  case W_delay
  with assms obtain g0 where wf: "well_formed (random s)"
    and g0: "construct (seed_of w) = Some g0"
      "draws (length (randoms (w_events s))) g0 = Some (randoms (w_events s), random s)"
    by (auto simp: worker_ok_def)
  from integer_well_formed [OF wf] obtain r g where
    rg: "integer (random s) = Some (r, g)" "well_formed g" by blast
  from draws_snoc [OF g0(2) rg(1)] have
    "draws (length (randoms (w_events s @ [Random r]))) g0
       = Some (randoms (w_events s @ [Random r]), g)"
    by (simp add: randoms_snoc)
  with assms W_delay rg g0(1) show ?thesis
    by (simp add: threadFunc_step_def worker_ok_def follows_snoc worker_order_def)
next
  case W_store
  with assms show ?thesis
    by (cases w)
      (simp_all add: threadFunc_step_def worker_ok_def follows_snoc worker_order_def
        randoms_snoc)
next
  case W_barrier
  with assms show ?thesis
    by (simp add: threadFunc_step_def worker_ok_def follows_snoc worker_order_def randoms_snoc)
next
  case W_load
  with assms show ?thesis
    by (cases w)
      (simp_all add: threadFunc_step_def worker_ok_def follows_snoc worker_order_def
        randoms_snoc)
next
  case W_signal
  with assms show ?thesis
    by (simp add: threadFunc_step_def worker_ok_def follows_snoc worker_order_def randoms_snoc)
qed

lemma worker_ok_sequence:
  assumes "worker_ok w s"
  shows "sequence (seed_of w) (length (randoms (w_events s))) = Some (randoms (w_events s))"
proof (cases "w_pc s = W_construct")
  case True
  from discard_well_formed [OF well_formed_fill, of 62400 "seed_of w"] obtain g where
    "construct (seed_of w) = Some g"
    by (auto simp: construct_def MT_LEN_def)
  with assms True show ?thesis
    by (simp add: worker_ok_def sequence_def randoms_def)
next
  case False
  with assms show ?thesis
    by (auto simp: worker_ok_def sequence_def)
qed

lemma system_step_ok:
  assumes "system_ok s"
  shows "\<exists>s'. system_step cfg t s = Some s' \<and> system_ok s' \<and> pinned s' = pinned s"
proof (cases t)
  case Main_thread
  obtain m c where mc: "main_step (mem s) (main_thread s) = (m, c)"
    by (cases "main_step (mem s) (main_thread s)")
  with assms have "main_ok c" by (auto simp: system_ok_def intro: main_step_ok)
  with assms mc Main_thread show ?thesis by (simp add: system_ok_def)
next
  case (Worker w)
  show ?thesis
  proof (cases w)
    case Thread1
    from assms have "worker_ok Thread1 (thread1 s)" by (simp add: system_ok_def)
    from threadFunc_step_ok [OF this, of cfg "mem s"] assms Worker Thread1 show ?thesis
      by (auto simp: system_ok_def thread1Func_step_def)
  next
    case Thread2
    from assms have "worker_ok Thread2 (thread2 s)" by (simp add: system_ok_def)
    from threadFunc_step_ok [OF this, of cfg "mem s"] assms Worker Thread2 show ?thesis
      by (auto simp: system_ok_def thread2Func_step_def)
  qed
qed

lemma execute_ok:
  "system_ok s \<Longrightarrow> \<exists>s'. execute cfg sched s = Some s' \<and> system_ok s' \<and> pinned s' = pinned s"
proof (induction sched arbitrary: s)
  case Nil
  then show ?case by simp
next
  case (Cons t ts)
  from system_step_ok [OF Cons.prems, of cfg t] obtain s1 where
    s1: "system_step cfg t s = Some s1" "system_ok s1" "pinned s1 = pinned s" by blast
  from Cons.IH [OF s1(2)] s1 show ?case by auto
qed

lemma startup_ok: "system_ok (startup cfg res)"
  by (simp add: system_ok_def startup_def main_ok_def worker_ok_def spawned_def
      detections_def inspections_def)


subsection \<open>Every step keeps the handshake\<close>

lemma word_facts:
  "(0 :: 32 word) <s 1" "(0 :: 32 word) <s 2" "\<not> (0 :: 32 word) <s 0"
  by (simp_all add: word_sless_alt)

lemma le_one_cases: "t \<le> 1 \<Longrightarrow> t = 0 \<or> t = (1 :: nat)"
  by linarith

lemma settled_release1: "t2 \<le> 1 \<Longrightarrow> settled pc 1 t2 e \<Longrightarrow> settled pc 0 t2 (e + 1)"
  by (cases pc) (auto dest: le_one_cases)

lemma settled_release2: "t1 \<le> 1 \<Longrightarrow> settled pc t1 1 e \<Longrightarrow> settled pc t1 0 (e + 1)"
  by (cases pc) (auto dest!: le_one_cases)

lemma two_tokens_cases:
  assumes "t1 \<le> (1 :: nat)" "t2 \<le> (1 :: nat)"
  obtains "t1 = 0" "t2 = 0" | "t1 = 0" "t2 = 1" | "t1 = 1" "t2 = 0" | "t1 = 1" "t2 = 1"
proof -
  from assms(1) have "t1 = 0 \<or> t1 = 1" by linarith
  moreover from assms(2) have "t2 = 0 \<or> t2 = 1" by linarith
  ultimately show thesis using that by blast
qed

lemma settled_wait1:
  assumes "t1 \<le> 1" "t2 \<le> 1" "settled (M_wait1 p) t1 t2 e" "0 <s e"
  shows "settled (M_wait2 q) t1 t2 (e - 1)"
  using assms(1,2)
proof (cases rule: two_tokens_cases)
  case 4
  with assms(3,4) show ?thesis by (simp add: word_facts)
qed (use assms(3) in simp_all)

lemma settled_wait2:
  assumes "t1 \<le> 1" "t2 \<le> 1" "settled (M_wait2 p) t1 t2 e" "0 <s e"
  shows "settled M_check t1 t2 (e - 1)"
  using assms(1,2)
proof (cases rule: two_tokens_cases)
  case 1
  with assms(3) show ?thesis by simp
next
  case 2
  with assms(3,4) show ?thesis by (simp add: word_facts)
next
  case 3
  with assms(3,4) show ?thesis by (simp add: word_facts)
next
  case 4
  with assms(3) show ?thesis by simp
qed

lemma threadFunc_step_effect:
  assumes "threadFunc_step cfg w m s = Some (m', s')"
  shows "(sema m' = sema m \<and> busy (w_pc s') = busy (w_pc s))
       \<or> (\<not> busy (w_pc s) \<and> busy (w_pc s') \<and> 0 <s sema m (begin_sema w)
            \<and> sema m' = (sema m)(begin_sema w := sema m (begin_sema w) - 1))
       \<or> (busy (w_pc s) \<and> \<not> busy (w_pc s') \<and> sema m' = (sema m)(endSema := sema m endSema + 1))"
proof (cases "w_pc s")
  case (W_begin_wait p)
  with assms show ?thesis
    by (cases p) (auto simp: threadFunc_step_def split: if_splits)
next
  case W_delay
  with assms show ?thesis
    by (auto simp: threadFunc_step_def split: option.splits if_splits)
next
  case W_construct
  with assms show ?thesis
    by (auto simp: threadFunc_step_def split: option.splits)
qed (use assms in \<open>auto simp: threadFunc_step_def sem_signal_def\<close>)

lemma begin_sema_neq: "begin_sema w \<noteq> endSema" "endSema \<noteq> begin_sema w"
  by (cases w; simp)+

lemma handshake_worker_step:
  assumes h: "handshake m pc w1 w2"
    and st: "threadFunc_step cfg w m s = Some (m', s')"
    and s: "s = (case w of Thread1 \<Rightarrow> w1 | Thread2 \<Rightarrow> w2)"
  shows "handshake m' pc (case w of Thread1 \<Rightarrow> s' | Thread2 \<Rightarrow> w1)
           (case w of Thread1 \<Rightarrow> w2 | Thread2 \<Rightarrow> s')"
  using threadFunc_step_effect [OF st]
proof (elim disjE conjE)
  assume "sema m' = sema m" "busy (w_pc s') = busy (w_pc s)"
  with h s show ?thesis by (cases w) (simp_all add: handshake_def tokens_def)
next
  assume a: "\<not> busy (w_pc s)" "busy (w_pc s')" "0 <s sema m (begin_sema w)"
    "sema m' = (sema m)(begin_sema w := sema m (begin_sema w) - 1)"
  from h a(3) have one: "sema m (begin_sema w) = 1"
    by (cases w) (auto simp: handshake_def word_facts)
  have own: "tokens m' w s' = tokens m w s"
    using a one by (simp add: tokens_def)
  have other: "tokens m' v u = tokens m v u" if "v \<noteq> w" for v u
    using a(4) that by (cases v; cases w) (simp_all add: tokens_def)
  have e: "sema m' endSema = sema m endSema"
    using a(4) by (simp add: begin_sema_neq)
  from h s own other [of Thread1] other [of Thread2] e a(4) one show ?thesis
    by (cases w) (simp_all add: handshake_def)
next
  assume a: "busy (w_pc s)" "\<not> busy (w_pc s')"
    "sema m' = (sema m)(endSema := sema m endSema + 1)"
  from h s a(1) have zero: "sema m (begin_sema w) = 0"
    by (cases w) (auto simp: handshake_def tokens_def split: if_splits)
  have own: "tokens m w s = 1" "tokens m' w s' = 0"
    using a zero by (simp_all add: tokens_def begin_sema_neq)
  have other: "tokens m' v u = tokens m v u" for v u
    using a(3) by (simp add: tokens_def begin_sema_neq)
  have b: "sema m' beginSema1 = sema m beginSema1" "sema m' beginSema2 = sema m beginSema2"
    and e: "sema m' endSema = sema m endSema + 1"
    using a(3) by simp_all
  show ?thesis
  proof (cases w)
    case Thread1
    with h s own have "tokens m Thread2 w2 \<le> 1"
      "settled pc 1 (tokens m Thread2 w2) (sema m endSema)"
      by (simp_all add: handshake_def)
    from settled_release1 [OF this] h own Thread1 show ?thesis
      by (simp add: handshake_def other b e)
  next
    case Thread2
    with h s own have "tokens m Thread1 w1 \<le> 1"
      "settled pc (tokens m Thread1 w1) 1 (sema m endSema)"
      by (simp_all add: handshake_def)
    from settled_release2 [OF this] h own Thread2 show ?thesis
      by (simp add: handshake_def other b e)
  qed
qed


lemma tokens_zero: "tokens m w s = 0 \<longleftrightarrow> sema m (begin_sema w) = 0 \<and> \<not> busy (w_pc s)"
  by (simp add: tokens_def)

lemma tokens_endSema: "tokens (m\<lparr>sema := (sema m)(endSema := v)\<rparr>) w s = tokens m w s"
  by (simp add: tokens_def begin_sema_neq)

lemma tokens_var: "tokens (m\<lparr>var := f\<rparr>) w s = tokens m w s"
  by (simp add: tokens_def)

lemma handshake_main_step:
  assumes h: "handshake m (m_pc c) w1 w2" and st: "main_step m c = (m', c')"
  shows "handshake m' (m_pc c') w1 w2"
proof (cases "m_pc c")
  case M_reset_X
  with h st show ?thesis
    by (auto simp: main_step_def handshake_def tokens_var)
next
  case M_reset_Y
  with h st show ?thesis
    by (auto simp: main_step_def handshake_def tokens_var)
next
  case M_signal1
  with h have z: "sema m beginSema1 = 0" "\<not> busy (w_pc w1)" "tokens m Thread2 w2 = 0"
    "sema m endSema = 0" "sema m beginSema2 = 0"
    by (simp_all add: handshake_def tokens_zero)
  let ?m = "m\<lparr>sema := (sema m)(beginSema1 := 1)\<rparr>"
  have "tokens ?m Thread1 w1 = 1" "tokens ?m Thread2 w2 = 0"
    using z by (simp_all add: tokens_def)
  with st M_signal1 z show ?thesis
    by (auto simp: main_step_def handshake_def sem_signal_def)
next
  case M_signal2
  with h have z: "sema m beginSema2 = 0" "\<not> busy (w_pc w2)"
    "sema m endSema = of_nat (1 - tokens m Thread1 w1)" "tokens m Thread1 w1 \<le> 1"
    "sema m beginSema1 = 0 \<or> sema m beginSema1 = 1"
    by (simp_all add: handshake_def tokens_zero)
  let ?m = "m\<lparr>sema := (sema m)(beginSema2 := 1)\<rparr>"
  have "tokens ?m Thread1 w1 = tokens m Thread1 w1" "tokens ?m Thread2 w2 = 1"
    using z by (simp_all add: tokens_def)
  with st M_signal2 z show ?thesis
    by (auto simp: main_step_def handshake_def sem_signal_def)
next
  case (M_wait1 p)
  show ?thesis
  proof (cases p)
    case At_load
    with h st M_wait1 show ?thesis
      by (auto simp: main_step_def handshake_def tokens_endSema)
  next
    case At_yield
    with h st M_wait1 show ?thesis
      by (auto simp: main_step_def handshake_def tokens_endSema)
  next
    case (At_cas old)
    show ?thesis
    proof (cases "0 <s old \<and> sema m endSema = old")
      case False
      with h st M_wait1 At_cas show ?thesis
        by (auto simp: main_step_def handshake_def tokens_endSema)
    next
      case True
      with h M_wait1 have "settled (M_wait2 At_load) (tokens m Thread1 w1) (tokens m Thread2 w2)
          (sema m endSema - 1)"
        by (intro settled_wait1 [of _ _ p]) (simp_all add: handshake_def)
      with h st M_wait1 At_cas True show ?thesis
        by (auto simp: main_step_def handshake_def tokens_endSema)
    qed
  qed
next
  case (M_wait2 p)
  show ?thesis
  proof (cases p)
    case At_load
    with h st M_wait2 show ?thesis
      by (auto simp: main_step_def handshake_def tokens_endSema)
  next
    case At_yield
    with h st M_wait2 show ?thesis
      by (auto simp: main_step_def handshake_def tokens_endSema)
  next
    case (At_cas old)
    show ?thesis
    proof (cases "0 <s old \<and> sema m endSema = old")
      case False
      with h st M_wait2 At_cas show ?thesis
        by (auto simp: main_step_def handshake_def tokens_endSema)
    next
      case True
      with h M_wait2 have "settled M_check (tokens m Thread1 w1) (tokens m Thread2 w2)
          (sema m endSema - 1)"
        by (intro settled_wait2 [of _ _ p]) (simp_all add: handshake_def)
      with h st M_wait2 At_cas True show ?thesis
        by (auto simp: main_step_def handshake_def tokens_endSema)
    qed
  qed
next
  case M_check
  with h st show ?thesis
    by (auto simp: main_step_def handshake_def)
qed

lemma handshake_system_step:
  assumes "handshake_ok s" and "system_step cfg t s = Some s'"
  shows "handshake_ok s'"
proof (cases t)
  case Main_thread
  with assms show ?thesis
    by (auto simp: handshake_ok_def split: prod.splits dest: handshake_main_step)
next
  case (Worker w)
  show ?thesis
  proof (cases w)
    case Thread1
    with assms Worker obtain m' w' where
      st: "threadFunc_step cfg Thread1 (mem s) (thread1 s) = Some (m', w')"
      and s': "s' = s\<lparr>mem := m', thread1 := w'\<rparr>"
      by (auto simp: thread1Func_step_def split: option.splits)
    from handshake_worker_step [OF assms(1) [unfolded handshake_ok_def] st] show ?thesis
      by (simp add: handshake_ok_def s')
  next
    case Thread2
    with assms Worker obtain m' w' where
      st: "threadFunc_step cfg Thread2 (mem s) (thread2 s) = Some (m', w')"
      and s': "s' = s\<lparr>mem := m', thread2 := w'\<rparr>"
      by (auto simp: thread2Func_step_def split: option.splits)
    from handshake_worker_step [OF assms(1) [unfolded handshake_ok_def] st] show ?thesis
      by (simp add: handshake_ok_def s')
  qed
qed

lemma handshake_execute:
  "handshake_ok s \<Longrightarrow> execute cfg sched s = Some s' \<Longrightarrow> handshake_ok s'"
proof (induction sched arbitrary: s)
  case Nil
  then show ?case by simp
next
  case (Cons t ts)
  then show ?case
    by (auto split: option.splits dest: handshake_system_step)
qed

lemma handshake_startup: "handshake_ok (startup cfg res)"
  by (simp add: handshake_ok_def handshake_def startup_def tokens_def spawned_def)

subsection \<open>The monitors accept a pass in order and reject one out of order\<close>

lemma worker_order_example:
  "follows (worker_order Thread1) To_wait
     [Sem_wait beginSema1, Random 3, Random 16, Store X 1, Barrier Compiler_barrier, Copy r1 Y,
      Sem_signal endSema] = Some To_wait"
  "follows (worker_order Thread1) To_wait [Sem_wait beginSema1, Random 3, Store X 1] = None"
  "follows (worker_order Thread2) To_wait [Sem_wait beginSema2, Random 8, Copy r2 X] = None"
  by (simp_all add: worker_order_def)

lemma controller_order_example:
  "follows controller_order (False, False, 0)
     [Store X 0, Store Y 0, Sem_signal beginSema1, Sem_signal beginSema2, Sem_wait endSema,
      Sem_wait endSema, Inspect 0 1] = Some (False, False, 0)"
  "follows controller_order (False, False, 0) [Store X 0, Sem_signal beginSema1] = None"
  "follows controller_order (False, False, 0)
     [Store X 0, Store Y 0, Sem_signal beginSema1, Sem_signal beginSema2, Sem_wait endSema,
      Inspect 0 1] = None"
  by (simp_all add: controller_order_def)

subsection \<open>The flags between the resets and the inspection\<close>

lemma tokens_started:
  assumes "handshake m pc w1 w2"
  shows "tokens m Thread1 w1 \<noteq> 0 \<Longrightarrow> started pc Thread1"
    and "tokens m Thread2 w2 \<noteq> 0 \<Longrightarrow> started pc Thread2"
  using assms by (cases pc; simp add: handshake_def)+

lemma main_step_var:
  assumes "main_step m c = (m', c')"
  shows "var m' = (case m_pc c of M_reset_X \<Rightarrow> (var m)(X := 0)
                  | M_reset_Y \<Rightarrow> (var m)(Y := 0) | _ \<Rightarrow> var m)"
proof (cases "m_pc c")
  case (M_wait1 p)
  with assms show ?thesis
    by (cases rule: sem_wait_step_cases [of "sema m endSema" p]) (auto simp: main_step_def)
next
  case (M_wait2 p)
  with assms show ?thesis
    by (cases rule: sem_wait_step_cases [of "sema m endSema" p]) (auto simp: main_step_def)
qed (use assms in \<open>auto simp: main_step_def\<close>)

lemma main_step_wait_tokens:
  assumes "main_step m c = (m', c')" and "m_pc c = M_wait1 p \<or> m_pc c = M_wait2 p"
  shows "tokens m' w s = tokens m w s" and "started (m_pc c') w"
proof -
  obtain v q where vq: "sem_wait_step (sema m endSema) p = (v, q)"
    by (cases "sem_wait_step (sema m endSema) p")
  from assms vq have "m' = m\<lparr>sema := (sema m)(endSema := v)\<rparr>"
    by (cases q) (auto simp: main_step_def)
  then show "tokens m' w s = tokens m w s" by (simp add: tokens_endSema)
  from assms vq show "started (m_pc c') w"
    by (cases q) (auto simp: main_step_def)
qed

lemma flag_ok_main_step:
  assumes h: "handshake m (m_pc c) w1 w2" and st: "main_step m c = (m', c')"
    and f1: "flag_ok m (m_pc c) Thread1 w1" and f2: "flag_ok m (m_pc c) Thread2 w2"
  shows "flag_ok m' (m_pc c') Thread1 w1 \<and> flag_ok m' (m_pc c') Thread2 w2"
proof (cases "m_pc c")
  case M_reset_X
  with st f1 f2 show ?thesis by (auto simp: main_step_def flag_ok_def)
next
  case M_reset_Y
  with st f1 f2 show ?thesis by (auto simp: main_step_def flag_ok_def)
next
  case M_signal1
  with h have z: "sema m beginSema1 = 0" "\<not> busy (w_pc w1)"
    by (simp_all add: handshake_def tokens_zero)
  then have "\<not> stored (w_pc w1)" by (cases "w_pc w1") simp_all
  with st f1 f2 M_signal1 z show ?thesis
    by (auto simp: main_step_def flag_ok_def tokens_def sem_signal_def)
next
  case M_signal2
  with h have z: "sema m beginSema2 = 0" "\<not> busy (w_pc w2)"
    by (simp_all add: handshake_def tokens_zero)
  then have "\<not> stored (w_pc w2)" by (cases "w_pc w2") simp_all
  with st f1 f2 M_signal2 z show ?thesis
    by (auto simp: main_step_def flag_ok_def tokens_def sem_signal_def)
next
  case (M_wait1 p)
  with main_step_wait_tokens [OF st, of p] main_step_var [OF st] f1 f2 show ?thesis
    by (simp add: flag_ok_def)
next
  case (M_wait2 p)
  with main_step_wait_tokens [OF st, of p] main_step_var [OF st] f1 f2 show ?thesis
    by (simp add: flag_ok_def)
next
  case M_check
  with st show ?thesis by (auto simp: main_step_def flag_ok_def)
qed

lemma threadFunc_step_var:
  assumes "threadFunc_step cfg w m s = Some (m', s')"
  shows "(w_pc s = W_store \<and> w_pc s' = W_barrier \<and> var m' = (var m)(own_flag w := 1))
       \<or> (w_pc s = W_load \<and> w_pc s' = W_signal
            \<and> var m' = (var m)(result_slot w := var m (other_flag w)))
       \<or> (var m' = var m
            \<and> (stored (w_pc s') = stored (w_pc s) \<or> (w_pc s = W_signal \<and> \<not> busy (w_pc s'))))"
proof (cases "w_pc s")
  case (W_begin_wait p)
  with assms show ?thesis
    by (cases p) (auto simp: threadFunc_step_def split: if_splits)
next
  case W_delay
  with assms show ?thesis
    by (auto simp: threadFunc_step_def split: option.splits if_splits)
next
  case W_construct
  with assms show ?thesis
    by (auto simp: threadFunc_step_def split: option.splits)
qed (use assms in \<open>auto simp: threadFunc_step_def\<close>)

lemma names_distinct:
  "own_flag w \<noteq> result_slot v" "own_flag w \<noteq> own_flag v \<longleftrightarrow> w \<noteq> v"
  "other_flag w \<noteq> own_flag w"
  by (cases w; cases v; simp)+

lemma begin_sema_inj: "begin_sema v = begin_sema w \<longleftrightarrow> v = w"
  by (cases v; cases w; simp)

lemma own_flag_inj: "own_flag v = own_flag w \<longleftrightarrow> v = w"
  by (cases v; cases w; simp)

lemma flag_ok_other_step:
  assumes st: "threadFunc_step cfg w m s = Some (m', s')" and vw: "v \<noteq> w"
    and f: "flag_ok m pc v u"
  shows "flag_ok m' pc v u"
proof -
  have var: "var m' (own_flag v) = var m (own_flag v)"
    using threadFunc_step_var [OF st] vw by (auto simp: names_distinct own_flag_inj)
  have "sema m' (begin_sema v) = sema m (begin_sema v)"
    using threadFunc_step_effect [OF st] vw by (auto simp: begin_sema_inj begin_sema_neq)
  then have "tokens m' v u = tokens m v u" by (simp add: tokens_def)
  with var f show ?thesis by (simp add: flag_ok_def)
qed

lemma flag_ok_own_step:
  assumes st: "threadFunc_step cfg w m s = Some (m', s')"
    and b: "sema m (begin_sema w) = 0 \<or> sema m (begin_sema w) = 1"
    and t: "tokens m w s \<le> 1"
    and bs: "busy (w_pc s) \<Longrightarrow> started pc w"
    and f: "flag_ok m pc w s"
  shows "flag_ok m' pc w s'"
proof (cases "w_pc s")
  case W_construct
  with st f show ?thesis
    by (auto simp: threadFunc_step_def flag_ok_def tokens_def split: option.splits)
next
  case (W_begin_wait p)
  show ?thesis
  proof (cases p)
    case At_load
    with st f W_begin_wait show ?thesis
      by (auto simp: threadFunc_step_def flag_ok_def tokens_def)
  next
    case At_yield
    with st f W_begin_wait show ?thesis
      by (auto simp: threadFunc_step_def flag_ok_def tokens_def)
  next
    case (At_cas old)
    show ?thesis
    proof (cases "0 <s old \<and> sema m (begin_sema w) = old")
      case False
      with st f W_begin_wait At_cas show ?thesis
        by (auto simp: threadFunc_step_def flag_ok_def tokens_def)
    next
      case True
      with b have "old = 1" by (auto simp: word_facts)
      with True st f W_begin_wait At_cas show ?thesis
        by (auto simp: threadFunc_step_def flag_ok_def tokens_def)
    qed
  qed
next
  case W_delay
  with st f show ?thesis
    by (auto simp: threadFunc_step_def flag_ok_def tokens_def split: option.splits if_splits)
next
  case W_store
  with st f bs show ?thesis
    by (auto simp: threadFunc_step_def flag_ok_def tokens_def)
next
  case W_barrier
  with st f show ?thesis
    by (auto simp: threadFunc_step_def flag_ok_def tokens_def)
next
  case W_load
  with st f show ?thesis
    by (auto simp: threadFunc_step_def flag_ok_def tokens_def names_distinct)
next
  case W_signal
  with t have "sema m (begin_sema w) = 0" by (simp add: tokens_def split: if_splits)
  with st f bs W_signal show ?thesis
    by (auto simp: threadFunc_step_def flag_ok_def tokens_def begin_sema_neq)
qed

lemma flags_system_step:
  assumes "flags_ok s" and "system_step cfg t s = Some s'"
  shows "flags_ok s'"
proof -
  from assms(1) have h: "handshake (mem s) (m_pc (main_thread s)) (thread1 s) (thread2 s)"
    and f1: "flag_ok (mem s) (m_pc (main_thread s)) Thread1 (thread1 s)"
    and f2: "flag_ok (mem s) (m_pc (main_thread s)) Thread2 (thread2 s)"
    by (simp_all add: flags_ok_def handshake_ok_def)
  have h': "handshake_ok s'"
    using handshake_system_step [OF _ assms(2)] assms(1) by (simp add: flags_ok_def)
  show ?thesis
  proof (cases t)
    case Main_thread
    with assms(2) obtain m c where
      st: "main_step (mem s) (main_thread s) = (m, c)" and s': "s' = s\<lparr>mem := m, main_thread := c\<rparr>"
      by (auto split: prod.splits)
    from flag_ok_main_step [OF h st f1 f2] h' show ?thesis
      by (simp add: flags_ok_def s')
  next
    case (Worker w)
    show ?thesis
    proof (cases w)
      case Thread1
      with assms(2) Worker obtain m' w' where
        st: "threadFunc_step cfg Thread1 (mem s) (thread1 s) = Some (m', w')"
        and s': "s' = s\<lparr>mem := m', thread1 := w'\<rparr>"
        by (auto simp: thread1Func_step_def split: option.splits)
      have "busy (w_pc (thread1 s)) \<Longrightarrow> started (m_pc (main_thread s)) Thread1"
        using tokens_started(1) [OF h] by (simp add: tokens_def)
      with h have "flag_ok m' (m_pc (main_thread s)) Thread1 w'"
        by (intro flag_ok_own_step [OF st _ _ _ f1]) (simp_all add: handshake_def)
      moreover have "flag_ok m' (m_pc (main_thread s)) Thread2 (thread2 s)"
        by (rule flag_ok_other_step [OF st _ f2]) simp
      ultimately show ?thesis using h' by (simp add: flags_ok_def s')
    next
      case Thread2
      with assms(2) Worker obtain m' w' where
        st: "threadFunc_step cfg Thread2 (mem s) (thread2 s) = Some (m', w')"
        and s': "s' = s\<lparr>mem := m', thread2 := w'\<rparr>"
        by (auto simp: thread2Func_step_def split: option.splits)
      have "busy (w_pc (thread2 s)) \<Longrightarrow> started (m_pc (main_thread s)) Thread2"
        using tokens_started(2) [OF h] by (simp add: tokens_def)
      with h have "flag_ok m' (m_pc (main_thread s)) Thread2 w'"
        by (intro flag_ok_own_step [OF st _ _ _ f2]) (simp_all add: handshake_def)
      moreover have "flag_ok m' (m_pc (main_thread s)) Thread1 (thread1 s)"
        by (rule flag_ok_other_step [OF st _ f1]) simp
      ultimately show ?thesis using h' by (simp add: flags_ok_def s')
    qed
  qed
qed

lemma flags_execute: "flags_ok s \<Longrightarrow> execute cfg sched s = Some s' \<Longrightarrow> flags_ok s'"
proof (induction sched arbitrary: s)
  case Nil
  then show ?case by simp
next
  case (Cons t ts)
  then show ?case
    by (auto split: option.splits dest: flags_system_step)
qed

lemma flags_startup: "flags_ok (startup cfg res)"
  using handshake_startup [of cfg res]
  by (simp add: flags_ok_def flag_ok_def startup_def)

lemma flags_at_places:
  assumes "flags_ok s"
  shows "m_pc (main_thread s) = M_reset_Y \<Longrightarrow> var (mem s) X = 0"
    and "m_pc (main_thread s) = M_signal1 \<Longrightarrow> var (mem s) X = 0 \<and> var (mem s) Y = 0"
    and "m_pc (main_thread s) = M_signal2 \<Longrightarrow> var (mem s) Y = 0"
    and "m_pc (main_thread s) = M_check \<Longrightarrow> var (mem s) X = 1 \<and> var (mem s) Y = 1"
    and "m_pc (main_thread s) \<in> {M_reset_X, M_reset_Y, M_signal1, M_check}
           \<Longrightarrow> \<not> busy (w_pc (thread1 s)) \<and> \<not> busy (w_pc (thread2 s))
               \<and> sema (mem s) beginSema1 = 0 \<and> sema (mem s) beginSema2 = 0
               \<and> sema (mem s) endSema = 0"
  using assms
  by (auto simp: flags_ok_def flag_ok_def handshake_ok_def handshake_def tokens_zero)

subsection \<open>A pass of a worker running alone\<close>

lemma worker_run_add:
  "worker_run cfg w (a + b) m s =
     (case worker_run cfg w a m s of None \<Rightarrow> None | Some (m', s') \<Rightarrow> worker_run cfg w b m' s')"
  by (induction a arbitrary: m s) (auto split: option.splits)

lemma worker_run_ok:
  "worker_ok w s \<Longrightarrow> worker_run cfg w n m s = Some (m', s') \<Longrightarrow> worker_ok w s'"
proof (induction n arbitrary: m s)
  case 0
  then show ?case by simp
next
  case (Suc n)
  from threadFunc_step_ok [OF Suc.prems(1), of cfg m] obtain m1 s1 where
    s1: "threadFunc_step cfg w m s = Some (m1, s1)" "worker_ok w s1" by blast
  from Suc.IH [OF s1(2)] Suc.prems(2) s1(1) show ?case by simp
qed

lemma construct_defined: "\<exists>g. construct seed = Some g \<and> well_formed g"
  using discard_well_formed [OF well_formed_fill, of 62400 seed]
  by (auto simp: construct_def MT_LEN_def)

lemma worker_position:
  assumes "worker_ok w s" and "w_pc s \<noteq> W_construct"
  shows "discard (62400 + length (randoms (w_events s))) (fill (seed_of w)) = Some (random s)"
proof -
  from assms obtain g where
    g: "construct (seed_of w) = Some g"
      "draws (length (randoms (w_events s))) g = Some (randoms (w_events s), random s)"
    by (auto simp: worker_ok_def)
  from g(2) have "discard (length (randoms (w_events s))) g = Some (random s)"
    by (simp add: discard_draws)
  with g(1) show ?thesis
    by (simp add: discard_add construct_def MT_LEN_def)
qed

lemma delay_run:
  assumes "w_pc s = W_delay" and "discard N (fill (seed_of w)) = Some (random s)"
    and "result_at (seed_of w) (N + k) mod 8 = 0"
    and "\<forall>j<k. result_at (seed_of w) (N + j) mod 8 \<noteq> 0"
  shows "\<exists>s'. worker_run cfg w (Suc k) m s = Some (m, s') \<and> w_pc s' = W_store
           \<and> w_events s' = w_events s
               @ map (\<lambda>j. Random (result_at (seed_of w) (N + j))) [0..<Suc k]"
  using assms
proof (induction k arbitrary: s N)
  case 0
  from integer_after [OF 0(2)] obtain g' where
    "integer (random s) = Some (result_at (seed_of w) N, g')" by blast
  with 0(1,3) show ?case by (simp add: threadFunc_step_def)
next
  case (Suc k)
  from integer_after [OF Suc.prems(2)] obtain g' where
    g': "integer (random s) = Some (result_at (seed_of w) N, g')"
      "discard (Suc N) (fill (seed_of w)) = Some g'" by blast
  from Suc.prems(4) [rule_format, of 0] have n0: "result_at (seed_of w) N mod 8 \<noteq> 0" by simp
  let ?s1 = "s\<lparr>w_pc := W_delay, random := g',
      w_events := w_events s @ [Random (result_at (seed_of w) N)]\<rparr>"
  have st: "threadFunc_step cfg w m s = Some (m, ?s1)"
    using Suc.prems(1) g'(1) n0 by (simp add: threadFunc_step_def)
  have "\<exists>s'. worker_run cfg w (Suc k) m ?s1 = Some (m, s') \<and> w_pc s' = W_store
           \<and> w_events s' = w_events ?s1
               @ map (\<lambda>j. Random (result_at (seed_of w) (Suc N + j))) [0..<Suc k]"
  proof (rule Suc.IH)
    show "w_pc ?s1 = W_delay" by simp
    show "discard (Suc N) (fill (seed_of w)) = Some (random ?s1)" using g'(2) by simp
    show "result_at (seed_of w) (Suc N + k) mod 8 = 0" using Suc.prems(3) by simp
    show "\<forall>j<k. result_at (seed_of w) (Suc N + j) mod 8 \<noteq> 0"
      using Suc.prems(4) by (metis Suc_less_eq add_Suc_shift)
  qed
  then obtain s' where s': "worker_run cfg w (Suc k) m ?s1 = Some (m, s')" "w_pc s' = W_store"
    "w_events s' = w_events ?s1
               @ map (\<lambda>j. Random (result_at (seed_of w) (Suc N + j))) [0..<Suc k]"
    by blast
  have "map (\<lambda>j. Random (result_at (seed_of w) (N + j))) [0..<Suc (Suc k)]
      = Random (result_at (seed_of w) N)
        # map (\<lambda>j. Random (result_at (seed_of w) (Suc N + j))) [0..<Suc k]"
    by (subst map_upt_Suc) simp
  with s' st show ?case by simp
qed

lemma transaction_run:
  assumes "w_pc s = W_store"
  shows "worker_run cfg w 4 m s =
     Some (m\<lparr>var := (var m)(own_flag w := 1, result_slot w := var m (other_flag w)),
              sema := (sema m)(endSema := sema m endSema + 1)\<rparr>,
           s\<lparr>w_pc := W_begin_wait At_load,
             w_events := w_events s
               @ [Store (own_flag w) 1,
                  Barrier (if use_cpu_fence cfg then Mfence else Compiler_barrier),
                  Copy (result_slot w) (other_flag w), Sem_signal endSema]\<rparr>)"
proof -
  have o: "other_flag w \<noteq> own_flag w" by (cases w) simp_all
  have n: "(4 :: nat) = Suc (Suc (Suc (Suc 0)))" by simp
  show ?thesis
    unfolding n using assms o by (simp add: threadFunc_step_def sem_signal_def)
qed

lemma one_positive: "0 <s (1 :: 32 word)"
  by (simp add: word_sless_alt)

lemma acquire_load:
  assumes "w_pc s = W_begin_wait At_load" and "sema m (begin_sema w) = 1"
  shows "worker_run cfg w 2 m s =
     Some (m\<lparr>sema := (sema m)(begin_sema w := 0)\<rparr>,
           s\<lparr>w_pc := W_delay, w_events := w_events s @ [Sem_wait (begin_sema w)]\<rparr>)"
proof -
  have n: "(2 :: nat) = Suc (Suc 0)" by simp
  have t: "m\<lparr>sema := (sema m)(begin_sema w := 1)\<rparr> = m"
    using assms(2) by (metis fun_upd_triv memory.surjective memory.update_convs(1) old.unit.exhaust)
  show ?thesis
    unfolding n using assms by (simp add: threadFunc_step_def one_positive t)
qed

lemma acquire_yield:
  assumes "w_pc s = W_begin_wait At_yield" and "sema m (begin_sema w) = 1"
  shows "worker_run cfg w 3 m s =
     Some (m\<lparr>sema := (sema m)(begin_sema w := 0)\<rparr>,
           s\<lparr>w_pc := W_delay, w_events := w_events s @ [Sem_wait (begin_sema w)]\<rparr>)"
proof -
  have n: "(3 :: nat) = Suc (Suc (Suc 0))" by simp
  have t: "m\<lparr>sema := (sema m)(begin_sema w := 1)\<rparr> = m"
    using assms(2) by (metis fun_upd_triv memory.surjective memory.update_convs(1) old.unit.exhaust)
  show ?thesis
    unfolding n using assms by (simp add: threadFunc_step_def one_positive t)
qed

lemma acquire_cas:
  assumes "w_pc s = W_begin_wait (At_cas old)" and "sema m (begin_sema w) = 1"
  shows "\<exists>n. worker_run cfg w n m s =
     Some (m\<lparr>sema := (sema m)(begin_sema w := 0)\<rparr>,
           s\<lparr>w_pc := W_delay, w_events := w_events s @ [Sem_wait (begin_sema w)]\<rparr>)"
proof (cases "old = 1")
  case True
  have "worker_run cfg w (Suc 0) m s =
     Some (m\<lparr>sema := (sema m)(begin_sema w := 0)\<rparr>,
           s\<lparr>w_pc := W_delay, w_events := w_events s @ [Sem_wait (begin_sema w)]\<rparr>)"
    using assms True by (simp add: threadFunc_step_def one_positive)
  then show ?thesis by blast
next
  case False
  have t: "m\<lparr>sema := (sema m)(begin_sema w := 1)\<rparr> = m"
    using assms(2) by (metis fun_upd_triv memory.surjective memory.update_convs(1) old.unit.exhaust)
  have "worker_run cfg w (Suc (Suc (Suc (Suc 0)))) m s =
     Some (m\<lparr>sema := (sema m)(begin_sema w := 0)\<rparr>,
           s\<lparr>w_pc := W_delay, w_events := w_events s @ [Sem_wait (begin_sema w)]\<rparr>)"
    using assms False by (simp add: threadFunc_step_def one_positive t)
  then show ?thesis by blast
qed

lemma acquire_construct:
  assumes "w_pc s = W_construct" and "sema m (begin_sema w) = 1"
  shows "\<exists>g. worker_run cfg w 3 m s =
     Some (m\<lparr>sema := (sema m)(begin_sema w := 0)\<rparr>,
           s\<lparr>w_pc := W_delay, random := g,
             w_events := w_events s @ [Sem_wait (begin_sema w)]\<rparr>)"
proof -
  from construct_defined obtain g where g: "construct (seed_of w) = Some g" by blast
  have n: "(3 :: nat) = Suc (Suc (Suc 0))" by simp
  have t: "m\<lparr>sema := (sema m)(begin_sema w := 1)\<rparr> = m"
    using assms(2) by (metis fun_upd_triv memory.surjective memory.update_convs(1) old.unit.exhaust)
  have "worker_run cfg w 3 m s =
     Some (m\<lparr>sema := (sema m)(begin_sema w := 0)\<rparr>,
           s\<lparr>w_pc := W_delay, random := g,
             w_events := w_events s @ [Sem_wait (begin_sema w)]\<rparr>)"
    unfolding n using assms g by (simp add: threadFunc_step_def one_positive t)
  then show ?thesis by blast
qed

lemma acquire_run:
  assumes "\<not> busy (w_pc s)" and "sema m (begin_sema w) = 1"
  shows "\<exists>n s'. worker_run cfg w n m s = Some (m\<lparr>sema := (sema m)(begin_sema w := 0)\<rparr>, s')
           \<and> w_pc s' = W_delay \<and> w_events s' = w_events s @ [Sem_wait (begin_sema w)]"
proof (cases "w_pc s")
  case W_construct
  from acquire_construct [OF this assms(2), of cfg] show ?thesis
    by (metis (no_types, lifting) worker_state.select_convs worker_state.simps worker_state.surjective
        worker_state.update_convs)
next
  case (W_begin_wait p)
  show ?thesis
  proof (cases p)
    case At_load
    with W_begin_wait acquire_load [of s m w cfg] assms(2) show ?thesis
      by (intro exI [of _ 2] exI [of _ "s\<lparr>w_pc := W_delay, w_events := w_events s @ [Sem_wait (begin_sema w)]\<rparr>"]) simp
  next
    case (At_cas old)
    with W_begin_wait acquire_cas [of s old m w cfg] assms(2) obtain n where
      "worker_run cfg w n m s =
     Some (m\<lparr>sema := (sema m)(begin_sema w := 0)\<rparr>,
           s\<lparr>w_pc := W_delay, w_events := w_events s @ [Sem_wait (begin_sema w)]\<rparr>)" by blast
    then show ?thesis
      by (intro exI [of _ n] exI [of _ "s\<lparr>w_pc := W_delay, w_events := w_events s @ [Sem_wait (begin_sema w)]\<rparr>"]) simp
  next
    case At_yield
    with W_begin_wait acquire_yield [of s m w cfg] assms(2) show ?thesis
      by (intro exI [of _ 3] exI [of _ "s\<lparr>w_pc := W_delay, w_events := w_events s @ [Sem_wait (begin_sema w)]\<rparr>"]) simp
  qed
qed (use assms(1) in simp_all)

lemma delay_length_seed:
  "\<exists>k. result_at (seed_of w) (N + k) mod 8 = 0
     \<and> (\<forall>j<k. result_at (seed_of w) (N + j) mod 8 \<noteq> 0)"
  using delay_length_workers [of N] by (cases w) simp_all

subsection \<open>A pass of the whole program\<close>

lemma pass_run:
  assumes ok: "worker_ok w s" and idle: "\<not> busy (w_pc s)" and b: "sema m (begin_sema w) = 1"
  shows "\<exists>n s' ds. worker_run cfg w n m s =
            Some (m\<lparr>sema := (sema m)(begin_sema w := 0, endSema := sema m endSema + 1),
                    var := (var m)(own_flag w := 1, result_slot w := var m (other_flag w))\<rparr>, s')
          \<and> w_pc s' = W_begin_wait At_load
          \<and> w_events s' = w_events s @ [Sem_wait (begin_sema w)] @ map Random ds
              @ [Store (own_flag w) 1,
                 Barrier (if use_cpu_fence cfg then Mfence else Compiler_barrier),
                 Copy (result_slot w) (other_flag w), Sem_signal endSema]
          \<and> ds \<noteq> [] \<and> last ds mod 8 = 0 \<and> list_all (\<lambda>d. d mod 8 \<noteq> 0) (butlast ds)
          \<and> worker_ok w s'"
proof -
  let ?m1 = "m\<lparr>sema := (sema m)(begin_sema w := 0)\<rparr>"
  from acquire_run [OF idle b, of cfg] obtain n1 s1 where
    a: "worker_run cfg w n1 m s = Some (?m1, s1)" "w_pc s1 = W_delay"
      "w_events s1 = w_events s @ [Sem_wait (begin_sema w)]" by blast
  from worker_run_ok [OF ok a(1)] have ok1: "worker_ok w s1" .
  let ?N = "62400 + length (randoms (w_events s1))"
  from worker_position [OF ok1] a(2) have
    pos: "discard ?N (fill (seed_of w)) = Some (random s1)" by simp
  from delay_length_seed [of w ?N] obtain k where
    k: "result_at (seed_of w) (?N + k) mod 8 = 0"
      "\<forall>j<k. result_at (seed_of w) (?N + j) mod 8 \<noteq> 0" by (elim exE conjE)
  define ds where "ds = map (\<lambda>j. result_at (seed_of w) (?N + j)) [0..<Suc k]"
  from delay_run [OF a(2) pos k, of cfg ?m1] obtain s2 where
    d: "worker_run cfg w (Suc k) ?m1 s1 = Some (?m1, s2)" "w_pc s2 = W_store"
      "w_events s2 = w_events s1 @ map Random ds"
    by (auto simp: ds_def comp_def)
  let ?m3 = "?m1\<lparr>var := (var ?m1)(own_flag w := 1, result_slot w := var ?m1 (other_flag w)),
              sema := (sema ?m1)(endSema := sema ?m1 endSema + 1)\<rparr>"
  let ?s3 = "s2\<lparr>w_pc := W_begin_wait At_load,
             w_events := w_events s2
               @ [Store (own_flag w) 1,
                  Barrier (if use_cpu_fence cfg then Mfence else Compiler_barrier),
                  Copy (result_slot w) (other_flag w), Sem_signal endSema]\<rparr>"
  from transaction_run [OF d(2), of cfg w ?m1] have
    t: "worker_run cfg w 4 ?m1 s2 = Some (?m3, ?s3)" .
  have run: "worker_run cfg w (n1 + (Suc k + 4)) m s = Some (?m3, ?s3)"
    using a(1) d(1) t by (simp only: worker_run_add option.case prod.case)
  have m3: "?m3 = m\<lparr>sema := (sema m)(begin_sema w := 0, endSema := sema m endSema + 1),
                    var := (var m)(own_flag w := 1, result_slot w := var m (other_flag w))\<rparr>"
    using begin_sema_neq [of w] by simp
  have ds1: "ds \<noteq> []" by (simp add: ds_def)
  have ds2: "last ds mod 8 = 0"
    using k(1) by (simp add: ds_def)
  have ds3: "list_all (\<lambda>d. d mod 8 \<noteq> 0) (butlast ds)"
    using k(2) by (simp add: ds_def list_all_iff)
  from worker_run_ok [OF ok run] have ok3: "worker_ok w ?s3" .
  show ?thesis
    apply (rule exI [of _ "n1 + (Suc k + 4)"], rule exI [of _ ?s3], rule exI [of _ ds])
    using run m3 ds1 ds2 ds3 ok3 a(3) d(3) by simp
qed

lemma execute_append:
  "execute cfg (a @ b) s = (case execute cfg a s of None \<Rightarrow> None | Some s' \<Rightarrow> execute cfg b s')"
  by (induction a arbitrary: s) (auto split: option.splits)

lemma execute_worker_run1:
  "execute cfg (replicate n (Worker Thread1)) s =
     (case worker_run cfg Thread1 n (mem s) (thread1 s) of
        None \<Rightarrow> None
      | Some (m, t) \<Rightarrow> Some (s\<lparr>mem := m, thread1 := t\<rparr>))"
  by (induction n arbitrary: s) (auto simp: thread1Func_step_def split: option.splits)

lemma execute_worker_run2:
  "execute cfg (replicate n (Worker Thread2)) s =
     (case worker_run cfg Thread2 n (mem s) (thread2 s) of
        None \<Rightarrow> None
      | Some (m, t) \<Rightarrow> Some (s\<lparr>mem := m, thread2 := t\<rparr>))"
  by (induction n arbitrary: s) (auto simp: thread2Func_step_def split: option.splits)

lemma worker_pass:
  assumes "worker_ok w (worker_of w s)" and "\<not> busy (w_pc (worker_of w s))"
    and "sema (mem s) (begin_sema w) = 1"
  shows "\<exists>n s' ds. execute cfg (replicate n (Worker w)) s = Some s'
     \<and> mem s' = (mem s)\<lparr>sema := (sema (mem s))(begin_sema w := 0,
                              endSema := sema (mem s) endSema + 1),
                        var := (var (mem s))(own_flag w := 1,
                              result_slot w := var (mem s) (other_flag w))\<rparr>
     \<and> w_pc (worker_of w s') = W_begin_wait At_load
     \<and> w_events (worker_of w s') = w_events (worker_of w s) @ [Sem_wait (begin_sema w)]
          @ map Random ds
          @ [Store (own_flag w) 1,
             Barrier (if use_cpu_fence cfg then Mfence else Compiler_barrier),
             Copy (result_slot w) (other_flag w), Sem_signal endSema]
     \<and> ds \<noteq> [] \<and> last ds mod 8 = 0 \<and> list_all (\<lambda>d. d mod 8 \<noteq> 0) (butlast ds)
     \<and> worker_ok w (worker_of w s')
     \<and> main_thread s' = main_thread s
     \<and> worker_of (other_worker w) s' = worker_of (other_worker w) s
     \<and> pinned s' = pinned s"
proof -
  from pass_run [OF assms, of cfg] obtain n t ds where
    p: "worker_run cfg w n (mem s) (worker_of w s) =
            Some ((mem s)\<lparr>sema := (sema (mem s))(begin_sema w := 0,
                              endSema := sema (mem s) endSema + 1),
                        var := (var (mem s))(own_flag w := 1,
                              result_slot w := var (mem s) (other_flag w))\<rparr>, t)"
      "w_pc t = W_begin_wait At_load"
      "w_events t = w_events (worker_of w s) @ [Sem_wait (begin_sema w)] @ map Random ds
              @ [Store (own_flag w) 1,
                 Barrier (if use_cpu_fence cfg then Mfence else Compiler_barrier),
                 Copy (result_slot w) (other_flag w), Sem_signal endSema]"
      "ds \<noteq> []" "last ds mod 8 = 0" "list_all (\<lambda>d. d mod 8 \<noteq> 0) (butlast ds)"
      "worker_ok w t"
    by (elim exE conjE)
  show ?thesis
  proof (cases w)
    case Thread1
    with p show ?thesis
      by (intro exI [of _ n] exI [of _ ds]
            exI [of _ "s\<lparr>mem := (mem s)\<lparr>sema := (sema (mem s))(begin_sema w := 0,
                              endSema := sema (mem s) endSema + 1),
                        var := (var (mem s))(own_flag w := 1,
                              result_slot w := var (mem s) (other_flag w))\<rparr>, thread1 := t\<rparr>"])
         (simp add: execute_worker_run1)
  next
    case Thread2
    with p show ?thesis
      by (intro exI [of _ n] exI [of _ ds]
            exI [of _ "s\<lparr>mem := (mem s)\<lparr>sema := (sema (mem s))(begin_sema w := 0,
                              endSema := sema (mem s) endSema + 1),
                        var := (var (mem s))(own_flag w := 1,
                              result_slot w := var (mem s) (other_flag w))\<rparr>, thread2 := t\<rparr>"])
         (simp add: execute_worker_run2)
  qed
qed

lemma main_open:
  assumes "m_pc (main_thread s) = M_reset_X"
  shows "execute cfg [Main_thread, Main_thread, Main_thread, Main_thread] s =
     Some (s\<lparr>mem := (mem s)\<lparr>var := (var (mem s))(X := 0, Y := 0),
                          sema := (sema (mem s))(beginSema1 := sema (mem s) beginSema1 + 1,
                                     beginSema2 := sema (mem s) beginSema2 + 1)\<rparr>,
             main_thread := (main_thread s)\<lparr>m_pc := M_wait1 At_load,
                m_events := m_events (main_thread s)
                  @ [Store X 0, Store Y 0, Sem_signal beginSema1, Sem_signal beginSema2]\<rparr>\<rparr>)"
  using assms by (simp add: main_step_def sem_signal_def)

lemma two_positive: "0 <s (2 :: 32 word)"
  by (simp add: word_sless_alt)

lemma main_close:
  assumes "m_pc (main_thread s) = M_wait1 At_load" and "sema (mem s) endSema = 2"
  shows "execute cfg [Main_thread, Main_thread, Main_thread, Main_thread] s =
     Some (s\<lparr>mem := (mem s)\<lparr>sema := (sema (mem s))(endSema := 0)\<rparr>,
             main_thread := (main_thread s)\<lparr>m_pc := M_check,
                m_events := m_events (main_thread s) @ [Sem_wait endSema, Sem_wait endSema]\<rparr>\<rparr>)"
  using assms by (simp add: main_step_def one_positive two_positive)

lemma main_inspect:
  assumes "m_pc (main_thread s) = M_check" and "var (mem s) r2 \<noteq> 0"
  shows "execute cfg [Main_thread] s =
     Some (s\<lparr>main_thread := (main_thread s)\<lparr>m_pc := M_reset_X,
                iterations := iterations (main_thread s) + 1,
                m_events := m_events (main_thread s)
                  @ [Inspect (var (mem s) r1) (var (mem s) r2)]\<rparr>\<rparr>)"
  using assms by (simp add: main_step_def check_def)

lemma pass_exists:
  assumes ok: "system_ok s" and fl: "flags_ok s" and pc: "m_pc (main_thread s) = M_reset_X"
  shows "\<exists>sched s' ds1 ds2. execute cfg sched s = Some s'
     \<and> m_pc (main_thread s') = M_check
     \<and> m_events (main_thread s') = m_events (main_thread s)
          @ [Store X 0, Store Y 0, Sem_signal beginSema1, Sem_signal beginSema2,
             Sem_wait endSema, Sem_wait endSema]
     \<and> var (mem s') = (var (mem s))(X := 1, Y := 1, r1 := 0, r2 := 1)
     \<and> sema (mem s') = sema (mem s)
     \<and> w_events (thread1 s') = w_events (thread1 s) @ [Sem_wait beginSema1] @ map Random ds1
          @ [Store X 1, Barrier (if use_cpu_fence cfg then Mfence else Compiler_barrier),
             Copy r1 Y, Sem_signal endSema]
     \<and> w_events (thread2 s') = w_events (thread2 s) @ [Sem_wait beginSema2] @ map Random ds2
          @ [Store Y 1, Barrier (if use_cpu_fence cfg then Mfence else Compiler_barrier),
             Copy r2 X, Sem_signal endSema]
     \<and> detected (main_thread s') = detected (main_thread s)
     \<and> iterations (main_thread s') = iterations (main_thread s)
     \<and> cout (main_thread s') = cout (main_thread s)"
proof -
  from flags_at_places(5) [OF fl] pc have
    idle: "\<not> busy (w_pc (thread1 s))" "\<not> busy (w_pc (thread2 s))"
    and z: "sema (mem s) beginSema1 = 0" "sema (mem s) beginSema2 = 0" "sema (mem s) endSema = 0"
    by simp_all
  from ok have w1: "worker_ok Thread1 (thread1 s)" and w2: "worker_ok Thread2 (thread2 s)"
    by (simp_all add: system_ok_def)
  define sA where "sA = s\<lparr>mem := (mem s)\<lparr>var := (var (mem s))(X := 0, Y := 0),
                          sema := (sema (mem s))(beginSema1 := sema (mem s) beginSema1 + 1,
                                     beginSema2 := sema (mem s) beginSema2 + 1)\<rparr>,
             main_thread := (main_thread s)\<lparr>m_pc := M_wait1 At_load,
                m_events := m_events (main_thread s)
                  @ [Store X 0, Store Y 0, Sem_signal beginSema1, Sem_signal beginSema2]\<rparr>\<rparr>"
  have a: "execute cfg [Main_thread, Main_thread, Main_thread, Main_thread] s = Some sA"
    unfolding sA_def by (rule main_open [OF pc])
  have "\<exists>n s' ds. execute cfg (replicate n (Worker Thread1)) sA = Some s'
     \<and> mem s' = (mem sA)\<lparr>sema := (sema (mem sA))(begin_sema Thread1 := 0,
                              endSema := sema (mem sA) endSema + 1),
                        var := (var (mem sA))(own_flag Thread1 := 1,
                              result_slot Thread1 := var (mem sA) (other_flag Thread1))\<rparr>
     \<and> w_pc (worker_of Thread1 s') = W_begin_wait At_load
     \<and> w_events (worker_of Thread1 s') = w_events (worker_of Thread1 sA)
          @ [Sem_wait (begin_sema Thread1)]
          @ map Random ds
          @ [Store (own_flag Thread1) 1,
             Barrier (if use_cpu_fence cfg then Mfence else Compiler_barrier),
             Copy (result_slot Thread1) (other_flag Thread1), Sem_signal endSema]
     \<and> ds \<noteq> [] \<and> last ds mod 8 = 0 \<and> list_all (\<lambda>d. d mod 8 \<noteq> 0) (butlast ds)
     \<and> worker_ok Thread1 (worker_of Thread1 s')
     \<and> main_thread s' = main_thread sA
     \<and> worker_of (other_worker Thread1) s' = worker_of (other_worker Thread1) sA
     \<and> pinned s' = pinned sA"
    using w1 idle(1) z(1) by (intro worker_pass) (simp_all add: sA_def)
  then obtain n1 sB ds1 where
    b: "execute cfg (replicate n1 (Worker Thread1)) sA = Some sB"
      "mem sB = (mem sA)\<lparr>sema := (sema (mem sA))(beginSema1 := 0,
                              endSema := sema (mem sA) endSema + 1),
                        var := (var (mem sA))(X := 1, r1 := var (mem sA) Y)\<rparr>"
      "w_events (thread1 sB) = w_events (thread1 sA) @ [Sem_wait beginSema1]
          @ map Random ds1
          @ [Store X 1, Barrier (if use_cpu_fence cfg then Mfence else Compiler_barrier),
             Copy r1 Y, Sem_signal endSema]"
      "main_thread sB = main_thread sA" "thread2 sB = thread2 sA"
    by (elim exE conjE) simp
  have "\<exists>n s' ds. execute cfg (replicate n (Worker Thread2)) sB = Some s'
     \<and> mem s' = (mem sB)\<lparr>sema := (sema (mem sB))(begin_sema Thread2 := 0,
                              endSema := sema (mem sB) endSema + 1),
                        var := (var (mem sB))(own_flag Thread2 := 1,
                              result_slot Thread2 := var (mem sB) (other_flag Thread2))\<rparr>
     \<and> w_pc (worker_of Thread2 s') = W_begin_wait At_load
     \<and> w_events (worker_of Thread2 s') = w_events (worker_of Thread2 sB)
          @ [Sem_wait (begin_sema Thread2)]
          @ map Random ds
          @ [Store (own_flag Thread2) 1,
             Barrier (if use_cpu_fence cfg then Mfence else Compiler_barrier),
             Copy (result_slot Thread2) (other_flag Thread2), Sem_signal endSema]
     \<and> ds \<noteq> [] \<and> last ds mod 8 = 0 \<and> list_all (\<lambda>d. d mod 8 \<noteq> 0) (butlast ds)
     \<and> worker_ok Thread2 (worker_of Thread2 s')
     \<and> main_thread s' = main_thread sB
     \<and> worker_of (other_worker Thread2) s' = worker_of (other_worker Thread2) sB
     \<and> pinned s' = pinned sB"
    using w2 idle(2) z(2) b(2,5) by (intro worker_pass) (simp_all add: sA_def)
  then obtain n2 sC ds2 where
    c: "execute cfg (replicate n2 (Worker Thread2)) sB = Some sC"
      "mem sC = (mem sB)\<lparr>sema := (sema (mem sB))(beginSema2 := 0,
                              endSema := sema (mem sB) endSema + 1),
                        var := (var (mem sB))(Y := 1, r2 := var (mem sB) X)\<rparr>"
      "w_events (thread2 sC) = w_events (thread2 sB) @ [Sem_wait beginSema2]
          @ map Random ds2
          @ [Store Y 1, Barrier (if use_cpu_fence cfg then Mfence else Compiler_barrier),
             Copy r2 X, Sem_signal endSema]"
      "main_thread sC = main_thread sB" "thread1 sC = thread1 sB"
    by (elim exE conjE) simp
  define sD where "sD = sC\<lparr>mem := (mem sC)\<lparr>sema := (sema (mem sC))(endSema := 0)\<rparr>,
             main_thread := (main_thread sC)\<lparr>m_pc := M_check,
                m_events := m_events (main_thread sC) @ [Sem_wait endSema, Sem_wait endSema]\<rparr>\<rparr>"
  have d: "execute cfg [Main_thread, Main_thread, Main_thread, Main_thread] sC = Some sD"
    unfolding sD_def using b(2,4) c(2,4) z(3) by (intro main_close) (simp_all add: sA_def)
  let ?sched = "[Main_thread, Main_thread, Main_thread, Main_thread]
      @ replicate n1 (Worker Thread1) @ replicate n2 (Worker Thread2)
      @ [Main_thread, Main_thread, Main_thread, Main_thread]"
  have run: "execute cfg ?sched s = Some sD"
    using a b(1) c(1) d by (simp only: execute_append option.case)
  have v: "var (mem sD) = (var (mem s))(X := 1, Y := 1, r1 := 0, r2 := 1)"
    using b(2) c(2) by (auto simp: sD_def sA_def fun_eq_iff)
  have se: "sema (mem sD) = sema (mem s)"
    using b(2) c(2) z by (auto simp: sD_def sA_def fun_eq_iff)
  show ?thesis
    apply (rule exI [of _ ?sched], rule exI [of _ sD], rule exI [of _ ds1], rule exI [of _ ds2])
    using run v se b(3,4,5) c(3,4,5) by (simp add: sD_def sA_def)
qed

lemma sem_wait_step_result:
  "sem_wait_step v p = (v', None) \<Longrightarrow> 0 <s v \<and> v' = v - 1"
  "sem_wait_step v p = (v', Some p') \<Longrightarrow> v' = v"
  by (cases p; auto split: if_splits)+

lemma memory_same: "m\<lparr>sema := (sema m)(b := sema m b)\<rparr> = m"
  by simp

lemma threadFunc_step_truthful:
  assumes "threadFunc_step cfg w m t = Some (m', t')"
  shows "(w_events t' = w_events t \<and> m' = m)
     \<or> (\<exists>e. w_events t' = w_events t @ [e] \<and> effect e m = Some m')"
proof (cases "w_pc t")
  case (W_begin_wait p)
  with assms show ?thesis
    by (cases rule: sem_wait_step_cases [of "sema m (begin_sema w)" p])
      (auto simp: threadFunc_step_def dest!: sem_wait_step_result)
qed (use assms in \<open>auto simp: threadFunc_step_def sem_signal_def split: option.splits\<close>)

lemma main_step_truthful:
  assumes "main_step m c = (m', c')"
  shows "(m_events c' = m_events c \<and> m' = m)
     \<or> (\<exists>e. m_events c' = m_events c @ [e] \<and> effect e m = Some m')"
proof (cases "m_pc c")
  case (M_wait1 p)
  with assms show ?thesis
    by (cases rule: sem_wait_step_cases [of "sema m endSema" p])
      (auto simp: main_step_def dest!: sem_wait_step_result)
next
  case (M_wait2 p)
  with assms show ?thesis
    by (cases rule: sem_wait_step_cases [of "sema m endSema" p])
      (auto simp: main_step_def dest!: sem_wait_step_result)
next
  case M_check
  with assms show ?thesis by (auto simp: main_step_def check_def)
qed (use assms in \<open>auto simp: main_step_def sem_signal_def\<close>)

lemma pass_complete:
  assumes ok: "system_ok s" and fl: "flags_ok s" and pc: "m_pc (main_thread s) = M_reset_X"
  shows "\<exists>sched s' ds1 ds2. execute cfg sched s = Some s'
     \<and> m_pc (main_thread s') = M_reset_X
     \<and> m_events (main_thread s') = m_events (main_thread s)
          @ [Store X 0, Store Y 0, Sem_signal beginSema1, Sem_signal beginSema2,
             Sem_wait endSema, Sem_wait endSema, Inspect 0 1]
     \<and> var (mem s') = (var (mem s))(X := 1, Y := 1, r1 := 0, r2 := 1)
     \<and> sema (mem s') = sema (mem s)
     \<and> w_events (thread1 s') = w_events (thread1 s) @ [Sem_wait beginSema1] @ map Random ds1
          @ [Store X 1, Barrier (if use_cpu_fence cfg then Mfence else Compiler_barrier),
             Copy r1 Y, Sem_signal endSema]
     \<and> w_events (thread2 s') = w_events (thread2 s) @ [Sem_wait beginSema2] @ map Random ds2
          @ [Store Y 1, Barrier (if use_cpu_fence cfg then Mfence else Compiler_barrier),
             Copy r2 X, Sem_signal endSema]
     \<and> detected (main_thread s') = detected (main_thread s)
     \<and> iterations (main_thread s') = iterations (main_thread s) + 1
     \<and> cout (main_thread s') = cout (main_thread s)"
proof -
  from pass_exists [OF assms, of cfg] obtain sched s1 ds1 ds2 where
    p: "execute cfg sched s = Some s1" "m_pc (main_thread s1) = M_check"
      "m_events (main_thread s1) = m_events (main_thread s)
          @ [Store X 0, Store Y 0, Sem_signal beginSema1, Sem_signal beginSema2,
             Sem_wait endSema, Sem_wait endSema]"
      "var (mem s1) = (var (mem s))(X := 1, Y := 1, r1 := 0, r2 := 1)"
      "sema (mem s1) = sema (mem s)"
      "w_events (thread1 s1) = w_events (thread1 s) @ [Sem_wait beginSema1] @ map Random ds1
          @ [Store X 1, Barrier (if use_cpu_fence cfg then Mfence else Compiler_barrier),
             Copy r1 Y, Sem_signal endSema]"
      "w_events (thread2 s1) = w_events (thread2 s) @ [Sem_wait beginSema2] @ map Random ds2
          @ [Store Y 1, Barrier (if use_cpu_fence cfg then Mfence else Compiler_barrier),
             Copy r2 X, Sem_signal endSema]"
      "detected (main_thread s1) = detected (main_thread s)"
      "iterations (main_thread s1) = iterations (main_thread s)"
      "cout (main_thread s1) = cout (main_thread s)"
    by (elim exE conjE)
  define s2 where "s2 = s1\<lparr>main_thread := (main_thread s1)\<lparr>m_pc := M_reset_X,
                iterations := iterations (main_thread s1) + 1,
                m_events := m_events (main_thread s1)
                  @ [Inspect (var (mem s1) r1) (var (mem s1) r2)]\<rparr>\<rparr>"
  have i: "execute cfg [Main_thread] s1 = Some s2"
    unfolding s2_def using p(2,4) by (intro main_inspect) simp_all
  have run: "execute cfg (sched @ [Main_thread]) s = Some s2"
    using p(1) i by (simp only: execute_append option.case)
  show ?thesis
    apply (rule exI [of _ "sched @ [Main_thread]"], rule exI [of _ s2],
        rule exI [of _ ds1], rule exI [of _ ds2])
    using run p(3-) by (simp add: s2_def)
qed

lemma inspections_snoc:
  "inspections (es @ [Store X 0, Store Y 0, Sem_signal beginSema1, Sem_signal beginSema2,
             Sem_wait endSema, Sem_wait endSema, Inspect a b]) = Suc (inspections es)"
  by (simp add: inspections_def)

lemma passes_reachable:
  "\<exists>sched s. execute cfg sched (startup cfg res) = Some s
     \<and> m_pc (main_thread s) = M_reset_X
     \<and> inspections (m_events (main_thread s)) = n
     \<and> detections (m_events (main_thread s)) = 0"
proof (induction n)
  case 0
  have "execute cfg [] (startup cfg res) = Some (startup cfg res)" by simp
  moreover have "m_pc (main_thread (startup cfg res)) = M_reset_X"
    "inspections (m_events (main_thread (startup cfg res))) = 0"
    "detections (m_events (main_thread (startup cfg res))) = 0"
    by (simp_all add: startup_def inspections_def detections_def)
  ultimately show ?case by blast
next
  case (Suc n)
  then obtain sched s where
    s: "execute cfg sched (startup cfg res) = Some s" "m_pc (main_thread s) = M_reset_X"
      "inspections (m_events (main_thread s)) = n" "detections (m_events (main_thread s)) = 0"
    by blast
  from execute_ok [OF startup_ok, of cfg sched cfg res] s(1) have ok: "system_ok s" by simp
  from flags_execute [OF flags_startup s(1)] have fl: "flags_ok s" .
  from pass_complete [OF ok fl s(2), of cfg] obtain sched' s' where
    p: "execute cfg sched' s = Some s'" "m_pc (main_thread s') = M_reset_X"
      "m_events (main_thread s') = m_events (main_thread s)
          @ [Store X 0, Store Y 0, Sem_signal beginSema1, Sem_signal beginSema2,
             Sem_wait endSema, Sem_wait endSema, Inspect 0 1]"
    by (elim exE conjE)
  have "execute cfg (sched @ sched') (startup cfg res) = Some s'"
    using s(1) p(1) by (simp only: execute_append option.case)
  moreover have "inspections (m_events (main_thread s')) = Suc n"
    using p(3) s(3) by (simp only: inspections_snoc)
  moreover have "detections (m_events (main_thread s')) = 0"
    using p(3) s(4) by (simp add: detections_def)
  ultimately show ?case using p(2) by blast
qed

lemma detections_le: "detections es \<le> inspections es"
  unfolding detections_def inspections_def
  by (induction es) (auto split: event.splits)

subsection \<open>The claims about the program\<close>

text \<open>
  Claim C4. Worker 1 is \<open>thread1Func\<close>, with seed 1, \<open>beginSema1\<close>, \<open>X\<close>, \<open>Y\<close> and
  \<open>r1\<close>; worker 2 is \<open>thread2Func\<close>, with seed 2, \<open>beginSema2\<close>, \<open>Y\<close>, \<open>X\<close> and \<open>r2\<close>.
  For every setting of the build options and every schedule the program runs (no step is
  undefined), and in the state reached:
  \<^item> what the worker has done is in the order of the worker's pass: a wait on its own
    begin-semaphore, then calls of the generator that go on exactly while the result
    modulo 8 is not 0, then the store of 1 into its own flag, a barrier, the copy of the
    other worker's flag into its own result, one signal of the completion semaphore, and
    again from the wait;
  \<^item> the results drawn are, in order, the first results of the generator constructed
    with the worker's seed;
  \<^item> if the worker is not inside a pass and its begin-semaphore is 1, then the worker,
    taking steps alone, completes a pass: the delay loop ends, and after the pass the
    begin-semaphore is 0, the completion semaphore is one more, the worker's own flag is
    1, its result is the value the other flag had, nothing else in the memory or in the
    other threads has changed, and the worker is back before its wait; the events of
    the pass are the wait, the results of the generator, all but the last of them not
    multiples of 8, the store, the barrier, the copy and the signal.

  And every step of a worker, from any state, either records nothing and leaves the
  memory as it is, or records one event and changes the memory as that event says.
\<close>

theorem worker_pass_order:
  assumes "(w, seed, b, x, y, r) = (Thread1, 1, beginSema1, X, Y, r1)
         \<or> (w, seed, b, x, y, r) = (Thread2, 2, beginSema2, Y, X, r2)"
  shows "(\<exists>s. execute cfg sched (startup cfg res) = Some s
       \<and> follows (worker_order w) To_wait (w_events (worker_of w s))
           = Some (phase_of (w_pc (worker_of w s)))
       \<and> sequence seed (length (randoms (w_events (worker_of w s))))
           = Some (randoms (w_events (worker_of w s)))
       \<and> (\<not> busy (w_pc (worker_of w s)) \<and> sema (mem s) b = 1 \<longrightarrow>
            (\<exists>n s' ds. execute cfg (replicate n (Worker w)) s = Some s'
               \<and> mem s' = (mem s)\<lparr>sema := (sema (mem s))(b := 0,
                                        endSema := sema (mem s) endSema + 1),
                                  var := (var (mem s))(x := 1, r := var (mem s) y)\<rparr>
               \<and> w_pc (worker_of w s') = W_begin_wait At_load
               \<and> w_events (worker_of w s') = w_events (worker_of w s) @ [Sem_wait b]
                    @ map Random ds
                    @ [Store x 1,
                       Barrier (if use_cpu_fence cfg then Mfence else Compiler_barrier),
                       Copy r y, Sem_signal endSema]
               \<and> ds \<noteq> [] \<and> last ds mod 8 = 0
               \<and> list_all (\<lambda>d. d mod 8 \<noteq> 0) (butlast ds)
               \<and> main_thread s' = main_thread s
               \<and> worker_of (other_worker w) s' = worker_of (other_worker w) s)))
   \<and> (threadFunc_step cfg w m t = Some (m', t') \<longrightarrow>
        (w_events t' = w_events t \<and> m' = m)
        \<or> (\<exists>e. w_events t' = w_events t @ [e] \<and> effect e m = Some m'))"
proof -
  from assms have n: "seed = seed_of w" "b = begin_sema w" "x = own_flag w"
    "y = other_flag w" "r = result_slot w"
    by auto
  from execute_ok [OF startup_ok, of cfg sched cfg res] obtain s where
    s: "execute cfg sched (startup cfg res) = Some s" "system_ok s" by blast
  from s(2) have ok: "worker_ok w (worker_of w s)"
    by (cases w) (simp_all add: system_ok_def)
  have pass: "\<exists>n s' ds. execute cfg (replicate n (Worker w)) s = Some s'
               \<and> mem s' = (mem s)\<lparr>sema := (sema (mem s))(b := 0,
                                        endSema := sema (mem s) endSema + 1),
                                  var := (var (mem s))(x := 1, r := var (mem s) y)\<rparr>
               \<and> w_pc (worker_of w s') = W_begin_wait At_load
               \<and> w_events (worker_of w s') = w_events (worker_of w s) @ [Sem_wait b]
                    @ map Random ds
                    @ [Store x 1,
                       Barrier (if use_cpu_fence cfg then Mfence else Compiler_barrier),
                       Copy r y, Sem_signal endSema]
               \<and> ds \<noteq> [] \<and> last ds mod 8 = 0
               \<and> list_all (\<lambda>d. d mod 8 \<noteq> 0) (butlast ds)
               \<and> main_thread s' = main_thread s
               \<and> worker_of (other_worker w) s' = worker_of (other_worker w) s"
    if "\<not> busy (w_pc (worker_of w s))" and "sema (mem s) b = 1"
  proof -
    from that(2) n(2) have b1: "sema (mem s) (begin_sema w) = 1" by simp
    from worker_pass [OF ok that(1) b1, of cfg] obtain k s' ds where
      p: "execute cfg (replicate k (Worker w)) s = Some s'"
      "mem s' = (mem s)\<lparr>sema := (sema (mem s))(begin_sema w := 0,
                              endSema := sema (mem s) endSema + 1),
                        var := (var (mem s))(own_flag w := 1,
                              result_slot w := var (mem s) (other_flag w))\<rparr>"
      "w_pc (worker_of w s') = W_begin_wait At_load"
      "w_events (worker_of w s') = w_events (worker_of w s) @ [Sem_wait (begin_sema w)]
          @ map Random ds
          @ [Store (own_flag w) 1,
             Barrier (if use_cpu_fence cfg then Mfence else Compiler_barrier),
             Copy (result_slot w) (other_flag w), Sem_signal endSema]"
      "ds \<noteq> []" "last ds mod 8 = 0" "list_all (\<lambda>d. d mod 8 \<noteq> 0) (butlast ds)"
      "main_thread s' = main_thread s"
      "worker_of (other_worker w) s' = worker_of (other_worker w) s"
      by (elim exE conjE)
    show ?thesis
      unfolding n
      apply (rule exI [of _ k], rule exI [of _ s'], rule exI [of _ ds])
      using p by simp
  qed
  have step: "(w_events t' = w_events t \<and> m' = m)
        \<or> (\<exists>e. w_events t' = w_events t @ [e] \<and> effect e m = Some m')"
    if "threadFunc_step cfg w m t = Some (m', t')"
    using that by (rule threadFunc_step_truthful)
  from ok have "follows (worker_order w) To_wait (w_events (worker_of w s))
           = Some (phase_of (w_pc (worker_of w s)))"
    by (simp add: worker_ok_def)
  with s(1) worker_ok_sequence [OF ok] pass step show ?thesis
    unfolding n by (intro conjI exI [of _ s] impI) auto
qed

theorem worker_pass_order_witness:
  "\<exists>s n s' ds.
     execute source_config [Main_thread, Main_thread, Main_thread] (startup source_config (0, 0))
       = Some s
     \<and> \<not> busy (w_pc (thread1 s)) \<and> sema (mem s) beginSema1 = 1
     \<and> execute source_config (replicate n (Worker Thread1)) s = Some s'
     \<and> var (mem s') X = 1 \<and> var (mem s') r1 = 0
     \<and> sema (mem s') beginSema1 = 0 \<and> sema (mem s') endSema = 1
     \<and> w_pc (thread1 s') = W_begin_wait At_load
     \<and> w_events (thread1 s') = [Sem_wait beginSema1] @ map Random ds
          @ [Store X 1, Barrier Compiler_barrier, Copy r1 Y, Sem_signal endSema]
     \<and> ds \<noteq> [] \<and> last ds mod 8 = 0 \<and> list_all (\<lambda>d. d mod 8 \<noteq> 0) (butlast ds)"
proof -
  define s3 where "s3 = (startup source_config (0, 0))
    \<lparr>mem := \<lparr>sema = (\<lambda>_. 0)(beginSema1 := 1), var = (\<lambda>_. 0)(X := 0, Y := 0)\<rparr>,
     main_thread := \<lparr>m_pc = M_signal2, detected = 0, iterations = 1, cout = [],
        m_events = [Store X 0, Store Y 0, Sem_signal beginSema1]\<rparr>\<rparr>"
  have e: "execute source_config [Main_thread, Main_thread, Main_thread]
      (startup source_config (0, 0)) = Some s3"
    by (simp add: s3_def startup_def main_step_def sem_signal_def)
  have h: "\<not> busy (w_pc (worker_of Thread1 s3)) \<and> sema (mem s3) beginSema1 = 1"
    by (simp add: s3_def startup_def spawned_def)
  have "\<exists>s. execute source_config [Main_thread, Main_thread, Main_thread]
          (startup source_config (0, 0)) = Some s
       \<and> follows (worker_order Thread1) To_wait (w_events (worker_of Thread1 s))
           = Some (phase_of (w_pc (worker_of Thread1 s)))
       \<and> sequence 1 (length (randoms (w_events (worker_of Thread1 s))))
           = Some (randoms (w_events (worker_of Thread1 s)))
       \<and> (\<not> busy (w_pc (worker_of Thread1 s)) \<and> sema (mem s) beginSema1 = 1 \<longrightarrow>
            (\<exists>n s' ds. execute source_config (replicate n (Worker Thread1)) s = Some s'
               \<and> mem s' = (mem s)\<lparr>sema := (sema (mem s))(beginSema1 := 0,
                                        endSema := sema (mem s) endSema + 1),
                                  var := (var (mem s))(X := 1, r1 := var (mem s) Y)\<rparr>
               \<and> w_pc (worker_of Thread1 s') = W_begin_wait At_load
               \<and> w_events (worker_of Thread1 s') = w_events (worker_of Thread1 s)
                    @ [Sem_wait beginSema1] @ map Random ds
                    @ [Store X 1,
                       Barrier (if use_cpu_fence source_config then Mfence
                                else Compiler_barrier),
                       Copy r1 Y, Sem_signal endSema]
               \<and> ds \<noteq> [] \<and> last ds mod 8 = 0
               \<and> list_all (\<lambda>d. d mod 8 \<noteq> 0) (butlast ds)
               \<and> main_thread s' = main_thread s
               \<and> worker_of (other_worker Thread1) s' = worker_of (other_worker Thread1) s))"
    using worker_pass_order [OF disjI1 [OF refl],
      of source_config "[Main_thread, Main_thread, Main_thread]" "(0, 0)"]
    by (rule conjunct1)
  then obtain s where s: "execute source_config [Main_thread, Main_thread, Main_thread]
          (startup source_config (0, 0)) = Some s"
    and imp: "\<not> busy (w_pc (worker_of Thread1 s)) \<and> sema (mem s) beginSema1 = 1 \<longrightarrow>
            (\<exists>n s' ds. execute source_config (replicate n (Worker Thread1)) s = Some s'
               \<and> mem s' = (mem s)\<lparr>sema := (sema (mem s))(beginSema1 := 0,
                                        endSema := sema (mem s) endSema + 1),
                                  var := (var (mem s))(X := 1, r1 := var (mem s) Y)\<rparr>
               \<and> w_pc (worker_of Thread1 s') = W_begin_wait At_load
               \<and> w_events (worker_of Thread1 s') = w_events (worker_of Thread1 s)
                    @ [Sem_wait beginSema1] @ map Random ds
                    @ [Store X 1,
                       Barrier (if use_cpu_fence source_config then Mfence
                                else Compiler_barrier),
                       Copy r1 Y, Sem_signal endSema]
               \<and> ds \<noteq> [] \<and> last ds mod 8 = 0
               \<and> list_all (\<lambda>d. d mod 8 \<noteq> 0) (butlast ds)
               \<and> main_thread s' = main_thread s
               \<and> worker_of (other_worker Thread1) s' = worker_of (other_worker Thread1) s)"
    by (elim exE conjE)
  from s e have eq: "s = s3" by simp
  from imp h have "\<exists>n s' ds. execute source_config (replicate n (Worker Thread1)) s3 = Some s'
               \<and> mem s' = (mem s3)\<lparr>sema := (sema (mem s3))(beginSema1 := 0,
                                        endSema := sema (mem s3) endSema + 1),
                                  var := (var (mem s3))(X := 1, r1 := var (mem s3) Y)\<rparr>
               \<and> w_pc (worker_of Thread1 s') = W_begin_wait At_load
               \<and> w_events (worker_of Thread1 s') = w_events (worker_of Thread1 s3)
                    @ [Sem_wait beginSema1] @ map Random ds
                    @ [Store X 1,
                       Barrier (if use_cpu_fence source_config then Mfence
                                else Compiler_barrier),
                       Copy r1 Y, Sem_signal endSema]
               \<and> ds \<noteq> [] \<and> last ds mod 8 = 0
               \<and> list_all (\<lambda>d. d mod 8 \<noteq> 0) (butlast ds)
               \<and> main_thread s' = main_thread s3
               \<and> worker_of (other_worker Thread1) s' = worker_of (other_worker Thread1) s3"
    unfolding eq by (rule mp)
  then obtain n s' ds where
    p: "execute source_config (replicate n (Worker Thread1)) s3 = Some s'"
      "mem s' = (mem s3)\<lparr>sema := (sema (mem s3))(beginSema1 := 0,
                                        endSema := sema (mem s3) endSema + 1),
                                  var := (var (mem s3))(X := 1, r1 := var (mem s3) Y)\<rparr>"
      "w_pc (worker_of Thread1 s') = W_begin_wait At_load"
      "w_events (worker_of Thread1 s') = w_events (worker_of Thread1 s3) @ [Sem_wait beginSema1]
                    @ map Random ds
                    @ [Store X 1,
                       Barrier (if use_cpu_fence source_config then Mfence else Compiler_barrier),
                       Copy r1 Y, Sem_signal endSema]"
      "ds \<noteq> []" "last ds mod 8 = 0" "list_all (\<lambda>d. d mod 8 \<noteq> 0) (butlast ds)"
    by (elim exE conjE)
  show ?thesis
    apply (rule exI [of _ s3], rule exI [of _ n], rule exI [of _ s'], rule exI [of _ ds])
    using e h p by (simp add: s3_def startup_def spawned_def source_config_def)
qed

text \<open>
  Claim C6. For every setting of the build options and every schedule the program runs,
  and in the state reached:
  \<^item> what the controller has done is in the order of the controller's pass: in each
    pass \<open>X\<close> and \<open>Y\<close> are both reset to 0 before either begin-semaphore is signalled,
    and two waits on the completion semaphore have returned before \<open>r1\<close> and \<open>r2\<close> are
    inspected;
  \<^item> when the controller is about to signal the first begin-semaphore, \<open>X\<close> and \<open>Y\<close>
    are 0 in the memory, and \<open>Y\<close> is still 0 when it is about to signal the second;
  \<^item> when the controller is about to inspect \<open>r1\<close> and \<open>r2\<close>, both workers have
    stored: \<open>X\<close> and \<open>Y\<close> are 1;
  \<^item> when the controller is at a reset, at its first signal or at the inspection, no
    worker is between its wait and its completion signal, and the three semaphores
    are 0;
  \<^item> from the start of a pass there is a schedule on which the pass is completed:
    the controller resets, signals, waits twice and reaches the inspection with
    \<open>X = 1\<close>, \<open>Y = 1\<close>, \<open>r1 = 0\<close> and \<open>r2 = 1\<close>, and its next step is the inspection
    of these values.

  And every step of the controller, from any state, either records nothing and leaves
  the memory as it is, or records one event and changes the memory as that event says.
\<close>

theorem controller_pass_order:
  "(\<exists>s. execute cfg sched (startup cfg res) = Some s
      \<and> follows controller_order (False, False, 0) (m_events (main_thread s))
          = Some (progress_of (m_pc (main_thread s)))
      \<and> (m_pc (main_thread s) = M_signal1 \<longrightarrow> var (mem s) X = 0 \<and> var (mem s) Y = 0)
      \<and> (m_pc (main_thread s) = M_signal2 \<longrightarrow> var (mem s) Y = 0)
      \<and> (m_pc (main_thread s) = M_check \<longrightarrow> var (mem s) X = 1 \<and> var (mem s) Y = 1)
      \<and> (m_pc (main_thread s) \<in> {M_reset_X, M_reset_Y, M_signal1, M_check}
           \<longrightarrow> \<not> busy (w_pc (thread1 s)) \<and> \<not> busy (w_pc (thread2 s))
               \<and> sema (mem s) beginSema1 = 0 \<and> sema (mem s) beginSema2 = 0
               \<and> sema (mem s) endSema = 0)
      \<and> (m_pc (main_thread s) = M_reset_X \<longrightarrow>
            (\<exists>sched' s' s''. execute cfg sched' s = Some s'
               \<and> m_pc (main_thread s') = M_check
               \<and> m_events (main_thread s') = m_events (main_thread s)
                    @ [Store X 0, Store Y 0, Sem_signal beginSema1, Sem_signal beginSema2,
                       Sem_wait endSema, Sem_wait endSema]
               \<and> var (mem s') = (var (mem s))(X := 1, Y := 1, r1 := 0, r2 := 1)
               \<and> sema (mem s') = sema (mem s)
               \<and> system_step cfg Main_thread s' = Some s''
               \<and> m_pc (main_thread s'') = M_reset_X
               \<and> m_events (main_thread s'') = m_events (main_thread s') @ [Inspect 0 1]
               \<and> mem s'' = mem s')))
   \<and> (main_step m c = (m', c') \<longrightarrow>
        (m_events c' = m_events c \<and> m' = m)
        \<or> (\<exists>e. m_events c' = m_events c @ [e] \<and> effect e m = Some m'))"
proof -
  from execute_ok [OF startup_ok, of cfg sched cfg res] obtain s where
    s: "execute cfg sched (startup cfg res) = Some s" "system_ok s" by blast
  from flags_execute [OF flags_startup s(1)] have fl: "flags_ok s" .
  have pass: "\<exists>sched' s' s''. execute cfg sched' s = Some s'
               \<and> m_pc (main_thread s') = M_check
               \<and> m_events (main_thread s') = m_events (main_thread s)
                    @ [Store X 0, Store Y 0, Sem_signal beginSema1, Sem_signal beginSema2,
                       Sem_wait endSema, Sem_wait endSema]
               \<and> var (mem s') = (var (mem s))(X := 1, Y := 1, r1 := 0, r2 := 1)
               \<and> sema (mem s') = sema (mem s)
               \<and> system_step cfg Main_thread s' = Some s''
               \<and> m_pc (main_thread s'') = M_reset_X
               \<and> m_events (main_thread s'') = m_events (main_thread s') @ [Inspect 0 1]
               \<and> mem s'' = mem s'"
    if pc: "m_pc (main_thread s) = M_reset_X"
  proof -
    from pass_exists [OF s(2) fl pc, of cfg] obtain sched' s' where
      p: "execute cfg sched' s = Some s'" "m_pc (main_thread s') = M_check"
        "m_events (main_thread s') = m_events (main_thread s)
          @ [Store X 0, Store Y 0, Sem_signal beginSema1, Sem_signal beginSema2,
             Sem_wait endSema, Sem_wait endSema]"
        "var (mem s') = (var (mem s))(X := 1, Y := 1, r1 := 0, r2 := 1)"
        "sema (mem s') = sema (mem s)"
      by (elim exE conjE)
    define s'' where "s'' = s'\<lparr>main_thread := (main_thread s')\<lparr>m_pc := M_reset_X,
                iterations := iterations (main_thread s') + 1,
                m_events := m_events (main_thread s')
                  @ [Inspect (var (mem s') r1) (var (mem s') r2)]\<rparr>\<rparr>"
    have "execute cfg [Main_thread] s' = Some s''"
      unfolding s''_def using p(2,4) by (intro main_inspect) simp_all
    then have i: "system_step cfg Main_thread s' = Some s''"
      by (simp split: option.splits)
    show ?thesis
      apply (rule exI [of _ sched'], rule exI [of _ s'], rule exI [of _ s''])
      using p i by (simp add: s''_def)
  qed
  have step: "(m_events c' = m_events c \<and> m' = m)
        \<or> (\<exists>e. m_events c' = m_events c @ [e] \<and> effect e m = Some m')"
    if "main_step m c = (m', c')"
    using that by (rule main_step_truthful)
  from s(2) have "follows controller_order (False, False, 0) (m_events (main_thread s))
          = Some (progress_of (m_pc (main_thread s)))"
    by (simp add: system_ok_def main_ok_def)
  with s(1) flags_at_places [OF fl] pass step show ?thesis
    by (intro conjI exI [of _ s] impI) auto
qed

theorem controller_pass_order_witness:
  "(\<exists>s. execute source_config [Main_thread, Main_thread] (startup source_config (0, 0)) = Some s
      \<and> m_pc (main_thread s) = M_signal1 \<and> var (mem s) X = 0 \<and> var (mem s) Y = 0
      \<and> \<not> busy (w_pc (thread1 s)) \<and> \<not> busy (w_pc (thread2 s)))
   \<and> (\<exists>sched s s'. execute source_config sched (startup source_config (0, 0)) = Some s
      \<and> m_pc (main_thread s) = M_check
      \<and> m_events (main_thread s)
          = [Store X 0, Store Y 0, Sem_signal beginSema1, Sem_signal beginSema2,
             Sem_wait endSema, Sem_wait endSema]
      \<and> var (mem s) X = 1 \<and> var (mem s) Y = 1 \<and> var (mem s) r1 = 0 \<and> var (mem s) r2 = 1
      \<and> sema (mem s) endSema = 0
      \<and> system_step source_config Main_thread s = Some s'
      \<and> m_events (main_thread s') = m_events (main_thread s) @ [Inspect 0 1])"
proof (rule conjI)
  define s2 where "s2 = (startup source_config (0, 0))
    \<lparr>mem := \<lparr>sema = (\<lambda>_. 0), var = (\<lambda>_. 0)(X := 0, Y := 0)\<rparr>,
     main_thread := \<lparr>m_pc = M_signal1, detected = 0, iterations = 1, cout = [],
        m_events = [Store X 0, Store Y 0]\<rparr>\<rparr>"
  have e: "execute source_config [Main_thread, Main_thread] (startup source_config (0, 0))
      = Some s2"
    by (simp add: s2_def startup_def main_step_def)
  from controller_pass_order [of source_config "[Main_thread, Main_thread]" "(0, 0)",
      THEN conjunct1]
  obtain s where s: "execute source_config [Main_thread, Main_thread]
        (startup source_config (0, 0)) = Some s"
    and a: "m_pc (main_thread s) = M_signal1 \<longrightarrow> var (mem s) X = 0 \<and> var (mem s) Y = 0"
    and b: "m_pc (main_thread s) \<in> {M_reset_X, M_reset_Y, M_signal1, M_check}
           \<longrightarrow> \<not> busy (w_pc (thread1 s)) \<and> \<not> busy (w_pc (thread2 s))
               \<and> sema (mem s) beginSema1 = 0 \<and> sema (mem s) beginSema2 = 0
               \<and> sema (mem s) endSema = 0"
    by (elim exE conjE)
  from s e have eq: "s = s2" by simp
  have pc: "m_pc (main_thread s2) = M_signal1" by (simp add: s2_def)
  from a b pc show "\<exists>s. execute source_config [Main_thread, Main_thread]
        (startup source_config (0, 0)) = Some s
      \<and> m_pc (main_thread s) = M_signal1 \<and> var (mem s) X = 0 \<and> var (mem s) Y = 0
      \<and> \<not> busy (w_pc (thread1 s)) \<and> \<not> busy (w_pc (thread2 s))"
    unfolding eq using e by (intro exI [of _ s2]) simp
next
  have z: "execute source_config [] (startup source_config (0, 0))
      = Some (startup source_config (0, 0))" by simp
  from controller_pass_order [of source_config "[]" "(0, 0)", THEN conjunct1]
  obtain s where s: "execute source_config [] (startup source_config (0, 0)) = Some s"
    and c: "m_pc (main_thread s) = M_reset_X \<longrightarrow>
            (\<exists>sched' s' s''. execute source_config sched' s = Some s'
               \<and> m_pc (main_thread s') = M_check
               \<and> m_events (main_thread s') = m_events (main_thread s)
                    @ [Store X 0, Store Y 0, Sem_signal beginSema1, Sem_signal beginSema2,
                       Sem_wait endSema, Sem_wait endSema]
               \<and> var (mem s') = (var (mem s))(X := 1, Y := 1, r1 := 0, r2 := 1)
               \<and> sema (mem s') = sema (mem s)
               \<and> system_step source_config Main_thread s' = Some s''
               \<and> m_pc (main_thread s'') = M_reset_X
               \<and> m_events (main_thread s'') = m_events (main_thread s') @ [Inspect 0 1]
               \<and> mem s'' = mem s')"
    by (elim exE conjE)
  from s have eq: "s = startup source_config (0, 0)" by simp
  have pc: "m_pc (main_thread (startup source_config (0, 0))) = M_reset_X"
    by (simp add: startup_def)
  from c pc have "\<exists>sched' s' s''. execute source_config sched' (startup source_config (0, 0)) = Some s'
               \<and> m_pc (main_thread s') = M_check
               \<and> m_events (main_thread s') = m_events (main_thread (startup source_config (0, 0)))
                    @ [Store X 0, Store Y 0, Sem_signal beginSema1, Sem_signal beginSema2,
                       Sem_wait endSema, Sem_wait endSema]
               \<and> var (mem s') = (var (mem (startup source_config (0, 0))))
                    (X := 1, Y := 1, r1 := 0, r2 := 1)
               \<and> sema (mem s') = sema (mem (startup source_config (0, 0)))
               \<and> system_step source_config Main_thread s' = Some s''
               \<and> m_pc (main_thread s'') = M_reset_X
               \<and> m_events (main_thread s'') = m_events (main_thread s') @ [Inspect 0 1]
               \<and> mem s'' = mem s'"
    unfolding eq by (rule mp)
  then obtain sched s s' where
    p: "execute source_config sched (startup source_config (0, 0)) = Some s"
      "m_pc (main_thread s) = M_check"
      "m_events (main_thread s) = m_events (main_thread (startup source_config (0, 0)))
                    @ [Store X 0, Store Y 0, Sem_signal beginSema1, Sem_signal beginSema2,
                       Sem_wait endSema, Sem_wait endSema]"
      "var (mem s) = (var (mem (startup source_config (0, 0))))
                    (X := 1, Y := 1, r1 := 0, r2 := 1)"
      "sema (mem s) = sema (mem (startup source_config (0, 0)))"
      "system_step source_config Main_thread s = Some s'"
      "m_events (main_thread s') = m_events (main_thread s) @ [Inspect 0 1]"
    by (elim exE conjE)
  show "\<exists>sched s s'. execute source_config sched (startup source_config (0, 0)) = Some s
      \<and> m_pc (main_thread s) = M_check
      \<and> m_events (main_thread s)
          = [Store X 0, Store Y 0, Sem_signal beginSema1, Sem_signal beginSema2,
             Sem_wait endSema, Sem_wait endSema]
      \<and> var (mem s) X = 1 \<and> var (mem s) Y = 1 \<and> var (mem s) r1 = 0 \<and> var (mem s) r2 = 1
      \<and> sema (mem s) endSema = 0
      \<and> system_step source_config Main_thread s = Some s'
      \<and> m_events (main_thread s') = m_events (main_thread s) @ [Inspect 0 1]"
    apply (rule exI [of _ sched], rule exI [of _ s], rule exI [of _ s'])
    using p by (simp add: startup_def)
qed

lemma show_int_examples:
  "show_int 2 = ''2''" "show_int 3 = ''3''" "show_int 120 = ''120''"
  "show_int 2147483647 = ''2147483647''" "show_int (- 2147483648) = ''-2147483648''"
  by (simp_all add: show_int_def show_nat.simps digit_def)

lemma sint_small:
  assumes "n < 2147483648"
  shows "sint (of_nat n :: 32 word) = int n"
  using assms by (simp add: signed_of_nat signed_take_bit_int_eq_self)

lemma sint_Suc_small:
  assumes "n < 2147483647"
  shows "sint (1 + of_nat n :: 32 word) = 1 + int n"
proof -
  have "sint (1 + of_nat n :: 32 word) = sint (of_nat (Suc n) :: 32 word)" by simp
  also have "\<dots> = int (Suc n)" using assms by (intro sint_small) simp
  also have "\<dots> = 1 + int n" by simp
  finally show ?thesis .
qed

text \<open>
  Claim C5 as stated fails where the counters wrap around. The inspection that ends
  pass 2147483647 leaves \<open>iterations\<close> at \<open>- 2147483648\<close>, and a detection in the pass
  after it prints that number, which is not the number of the pass.
\<close>

theorem iteration_number_wraps:
  "sint (iterations (snd (main_step (mem (startup source_config (0, 0)))
      \<lparr>m_pc = M_check, detected = 0, iterations = 2147483647, cout = [], m_events = []\<rparr>)))
     = - 2147483648
   \<and> cout (snd (main_step (mem (startup source_config (0, 0)))
      \<lparr>m_pc = M_check, detected = 1, iterations = 2147483647 + 1, cout = [], m_events = []\<rparr>))
     = ''2 reorders detected after -2147483648 iterations'' @ [newline, newline]"
  by (simp add: main_step_def check_def report_def startup_def show_int_examples)

text \<open>
  Claim C5, as amended. A step of the controller adds one to \<open>detected\<close> and prints the
  line with the new value of \<open>detected\<close> and the value of \<open>iterations\<close>, followed by an
  empty line, exactly when it is the inspection and finds \<open>r1 = 0\<close> and \<open>r2 = 0\<close>; every
  other step, and the inspection of any other pair of results, leaves \<open>detected\<close> and
  the output as they were. The inspection ends the pass and adds one to \<open>iterations\<close>.
  In every run the two counters are, modulo \<open>2 ^ 32\<close>, the number of inspections so far
  that found \<open>(0, 0)\<close> and one more than the number of inspections so far; as long as
  fewer than \<open>2 ^ 31 - 1\<close> inspections have been made, the values printed are these
  numbers themselves: the cumulative detection count and the number of the pass.
\<close>

theorem detection_report:
  "(main_step m c = (m', c') \<longrightarrow>
      (if m_pc c = M_check \<and> var m r1 = 0 \<and> var m r2 = 0
       then detected c' = detected c + 1
          \<and> cout c' = cout c @ show_int (sint (detected c')) @ '' reorders detected after ''
              @ show_int (sint (iterations c)) @ '' iterations'' @ [newline] @ [newline]
       else detected c' = detected c \<and> cout c' = cout c)
      \<and> (m_pc c = M_check \<longrightarrow> m_pc c' = M_reset_X \<and> iterations c' = iterations c + 1))
   \<and> (\<exists>s. execute cfg sched (startup cfg res) = Some s
         \<and> detected (main_thread s) = of_nat (detections (m_events (main_thread s)))
         \<and> iterations (main_thread s) = 1 + of_nat (inspections (m_events (main_thread s)))
         \<and> (inspections (m_events (main_thread s)) < 2147483647 \<longrightarrow>
              sint (detected (main_thread s)) = int (detections (m_events (main_thread s)))
              \<and> sint (iterations (main_thread s))
                  = 1 + int (inspections (m_events (main_thread s)))))"
proof (intro conjI impI)
  assume st: "main_step m c = (m', c')"
  show "if m_pc c = M_check \<and> var m r1 = 0 \<and> var m r2 = 0
       then detected c' = detected c + 1
          \<and> cout c' = cout c @ show_int (sint (detected c')) @ '' reorders detected after ''
              @ show_int (sint (iterations c)) @ '' iterations'' @ [newline] @ [newline]
       else detected c' = detected c \<and> cout c' = cout c"
  proof (cases "m_pc c")
    case (M_wait1 p)
    with st show ?thesis
      by (cases rule: sem_wait_step_cases [of "sema m endSema" p]) (auto simp: main_step_def)
  next
    case (M_wait2 p)
    with st show ?thesis
      by (cases rule: sem_wait_step_cases [of "sema m endSema" p]) (auto simp: main_step_def)
  next
    case M_check
    with st show ?thesis
      by (auto simp: main_step_def check_def report_def)
  qed (use st in \<open>auto simp: main_step_def\<close>)
  assume "m_pc c = M_check"
  with st show "m_pc c' = M_reset_X" and "iterations c' = iterations c + 1"
    by (auto simp: main_step_def check_def)
next
  from execute_ok [OF startup_ok, of cfg sched cfg res] obtain s where
    s: "execute cfg sched (startup cfg res) = Some s" "system_ok s" by blast
  from s(2) have d: "detected (main_thread s) = of_nat (detections (m_events (main_thread s)))"
    and i: "iterations (main_thread s) = 1 + of_nat (inspections (m_events (main_thread s)))"
    by (simp_all add: system_ok_def main_ok_def)
  have b: "sint (detected (main_thread s)) = int (detections (m_events (main_thread s)))
              \<and> sint (iterations (main_thread s))
                  = 1 + int (inspections (m_events (main_thread s)))"
    if "inspections (m_events (main_thread s)) < 2147483647"
  proof -
    from that detections_le [of "m_events (main_thread s)"] have
      "detections (m_events (main_thread s)) < 2147483648" by simp
    with that show ?thesis
      unfolding d i by (simp only: sint_small sint_Suc_small)
  qed
  show "\<exists>s. execute cfg sched (startup cfg res) = Some s
         \<and> detected (main_thread s) = of_nat (detections (m_events (main_thread s)))
         \<and> iterations (main_thread s) = 1 + of_nat (inspections (m_events (main_thread s)))
         \<and> (inspections (m_events (main_thread s)) < 2147483647 \<longrightarrow>
              sint (detected (main_thread s)) = int (detections (m_events (main_thread s)))
              \<and> sint (iterations (main_thread s))
                  = 1 + int (inspections (m_events (main_thread s))))"
    using s(1) d i b by (intro exI [of _ s]) simp
qed

theorem detection_report_witness:
  "main_step (mem (startup source_config (0, 0)))
      \<lparr>m_pc = M_check, detected = 2, iterations = 120, cout = [], m_events = []\<rparr>
     = (mem (startup source_config (0, 0)),
        \<lparr>m_pc = M_reset_X, detected = 3, iterations = 121,
         cout = ''3 reorders detected after 120 iterations'' @ [newline, newline],
         m_events = [Inspect 0 0]\<rparr>)
   \<and> m_pc \<lparr>m_pc = M_check, detected = 2, iterations = 120, cout = [], m_events = []\<rparr> = M_check
   \<and> var (mem (startup source_config (0, 0))) r1 = 0
   \<and> var (mem (startup source_config (0, 0))) r2 = 0
   \<and> inspections (m_events (main_thread (startup source_config (0, 0)))) < 2147483647
   \<and> sint (iterations (main_thread (startup source_config (0, 0)))) = 1"
proof -
  have e: "main_step (mem (startup source_config (0, 0)))
      \<lparr>m_pc = M_check, detected = 2, iterations = 120, cout = [], m_events = []\<rparr>
     = (mem (startup source_config (0, 0)),
        \<lparr>m_pc = M_reset_X, detected = 3, iterations = 121,
         cout = ''3 reorders detected after 120 iterations'' @ [newline, newline],
         m_events = [Inspect 0 0]\<rparr>)"
    by (simp add: main_step_def check_def report_def show_int_examples startup_def)
  have z: "inspections (m_events (main_thread (startup source_config (0, 0)))) = 0"
    by (simp add: startup_def inspections_def)
  from detection_report [of "mem (startup source_config (0, 0))"
      "\<lparr>m_pc = M_check, detected = 2, iterations = 120, cout = [], m_events = []\<rparr>"
      _ _ source_config "[]" "(0, 0)"] e z
  show ?thesis by (simp add: startup_def)
qed

text \<open>
  The bound is reached: there is a schedule on which 2147483647 passes are completed,
  and after them \<open>iterations\<close> is negative.
\<close>

lemma iteration_count_reaches_wrap:
  "\<exists>sched s. execute cfg sched (startup cfg res) = Some s
     \<and> inspections (m_events (main_thread s)) = 2147483647
     \<and> sint (iterations (main_thread s)) = - 2147483648"
proof -
  from passes_reachable [of cfg res 2147483647] obtain sched s where
    s: "execute cfg sched (startup cfg res) = Some s"
      "inspections (m_events (main_thread s)) = 2147483647"
    by (elim exE conjE)
  from execute_ok [OF startup_ok, of cfg sched cfg res] s(1) have "system_ok s" by simp
  with s(2) have "iterations (main_thread s) = 1 + of_nat 2147483647"
    by (simp only: system_ok_def main_ok_def)
  then have "sint (iterations (main_thread s)) = - 2147483648" by simp
  with s show ?thesis by (intro exI [of _ sched] exI [of _ s]) simp
qed

text \<open>
  Claim C8, as amended. Whatever \<open>pthread_setaffinity_np\<close> returns, startup prints
  nothing and goes on to the loop; a thread is pinned exactly when pinning was asked for
  and the call for it succeeded, so after a failed call the program runs unpinned, and
  it runs on under every schedule.
\<close>

theorem startup_ignores_affinity_failure:
  "cout (main_thread (startup cfg res)) = []
   \<and> m_pc (main_thread (startup cfg res)) = M_reset_X
   \<and> (pinned (startup cfg res) w \<longleftrightarrow> use_single_hw_thread cfg \<and> result_for res w = 0)
   \<and> (\<exists>s. execute cfg sched (startup cfg res) = Some s \<and> pinned s = pinned (startup cfg res))"
  using execute_ok [OF startup_ok, of cfg sched cfg res]
  by (auto simp: startup_def)

text \<open>
  Claim C8 as stated fails: with pinning asked for and both calls failing (error 22),
  neither thread is pinned and nothing has been printed when the loop starts.
\<close>

theorem no_diagnostic_when_pinning_fails:
  "use_single_hw_thread \<lparr>use_cpu_fence = False, use_single_hw_thread = True\<rparr>
   \<and> \<not> pinned (startup \<lparr>use_cpu_fence = False, use_single_hw_thread = True\<rparr> (22, 22)) Thread1
   \<and> \<not> pinned (startup \<lparr>use_cpu_fence = False, use_single_hw_thread = True\<rparr> (22, 22)) Thread2
   \<and> cout (main_thread (startup \<lparr>use_cpu_fence = False, use_single_hw_thread = True\<rparr> (22, 22))) = []"
  by (simp add: startup_def)
end
